theory Spec2Isabelle
  imports Complex_Main
begin

section \<open>JavaScript strings\<close>

text \<open>
  A JavaScript string is modelled as a \<^typ>\<open>string\<close>: a list of code units below 256
  (ASCII and Latin-1). Character classes and case mapping are the ECMAScript ones on that
  range. Array lengths and line numbers are naturals.
\<close>

definition startsWith :: "string \<Rightarrow> string \<Rightarrow> bool" where
  \<comment> \<open>\<open>s.startsWith(p)\<close>\<close>
  "startsWith s p = (take (length p) s = p)"

fun includesStr :: "string \<Rightarrow> string \<Rightarrow> bool" where
  \<comment> \<open>\<open>s.includes(sub)\<close>\<close>
  "includesStr [] sub = (sub = [])"
| "includesStr (x # xs) sub = (startsWith (x # xs) sub \<or> includesStr xs sub)"

definition substring :: "string \<Rightarrow> int \<Rightarrow> int \<Rightarrow> string" where
  \<comment> \<open>\<open>s.substring(a, b)\<close>: both ends are clamped to \<open>[0, length]\<close> and swapped when out of order\<close>
  "substring s a b =
     (let n = int (length s);
          a' = max 0 (min a n);
          b' = max 0 (min b n)
      in take (nat (max a' b') - nat (min a' b')) (drop (nat (min a' b')) s))"

fun split :: "string \<Rightarrow> char \<Rightarrow> string list" where
  \<comment> \<open>\<open>s.split(c)\<close> for a one-character separator; the empty string splits into one empty piece\<close>
  "split [] c = [[]]"
| "split (x # xs) c =
     (if x = c then [] # split xs c
      else (case split xs c of [] \<Rightarrow> [[x]] | p # ps \<Rightarrow> (x # p) # ps))"

definition lowerChar :: "char \<Rightarrow> char" where
  "lowerChar c =
     (let n = (of_char c :: nat)
      in if (65 \<le> n \<and> n \<le> 90) \<or> (192 \<le> n \<and> n \<le> 222 \<and> n \<noteq> 215)
         then char_of (n + 32) else c)"

definition toLowerCase :: "string \<Rightarrow> string" where
  "toLowerCase s = map lowerChar s"

definition isWord :: "char \<Rightarrow> bool" where
  \<comment> \<open>the class \<open>\w\<close>\<close>
  "isWord c =
     (let n = (of_char c :: nat)
      in (48 \<le> n \<and> n \<le> 57) \<or> (65 \<le> n \<and> n \<le> 90) \<or> n = 95 \<or> (97 \<le> n \<and> n \<le> 122))"

definition isSpace :: "char \<Rightarrow> bool" where
  \<comment> \<open>the class \<open>\s\<close>: tab, line feed, vertical tab, form feed, carriage return, space, no-break space\<close>
  "isSpace c = ((of_char c :: nat) \<in> {9, 10, 11, 12, 13, 32, 160})"

definition isDot :: "char \<Rightarrow> bool" where
  \<comment> \<open>the class \<open>.\<close>: anything but a line terminator\<close>
  "isDot c = ((of_char c :: nat) \<notin> {10, 13})"

definition isQuote :: "char \<Rightarrow> bool" where
  \<comment> \<open>the class \<open>['"`]\<close>\<close>
  "isQuote c = ((of_char c :: nat) \<in> {39, 34, 96})"

definition notQuote :: "char \<Rightarrow> bool" where
  "notQuote c = (\<not> isQuote c)"

definition notHashNewline :: "char \<Rightarrow> bool" where
  \<comment> \<open>the class \<open>[^#\n]\<close>\<close>
  "notHashNewline c = ((of_char c :: nat) \<notin> {35, 10})"

definition trim :: "string \<Rightarrow> string" where
  "trim s = rev (dropWhile isSpace (rev (dropWhile isSpace s)))"

section \<open>JavaScript numbers\<close>

text \<open>
  A JavaScript number is an IEEE 754 double. A finite double is modelled by its value, a
  rational number, and \<open>double\<close> rounds a rational to the nearest double: 53 significant
  bits, a tie going to the even significand. Every arithmetic operation of the source is
  the exact operation followed by \<open>double\<close>. An array has fewer than \<open>2^32\<close> elements, so
  the numbers of the scanner stay far inside the range of normal doubles, and the bounds
  of the exponent are not modelled. \<open>NaN\<close> is \<^term>\<open>None\<close> where the source can produce
  it. Counts of lines, files, functions and classes are whole numbers far below \<open>2^53\<close>,
  where the arithmetic of doubles is exact: they are naturals.
\<close>

fun bitLength :: "nat \<Rightarrow> nat" where
  \<comment> \<open>the number of binary digits of a natural number\<close>
  "bitLength n = (if n = 0 then 0 else Suc (bitLength (n div 2)))"

declare bitLength.simps [simp del]

definition exponent :: "rat \<Rightarrow> int" where
  \<comment> \<open>for a positive \<open>x\<close>, the \<open>e\<close> with \<open>2^e \<le> x < 2^(e + 1)\<close>\<close>
  "exponent x =
     (if 1 \<le> x then int (bitLength (nat \<lfloor>x\<rfloor>)) - 1
      else - int (bitLength (nat (\<lceil>1 / x\<rceil> - 1))))"

definition roundEven :: "rat \<Rightarrow> int" where
  \<comment> \<open>the nearest integer, a tie going to the even one\<close>
  "roundEven q =
     (let f = \<lfloor>q\<rfloor>; r = q - of_int f
      in if r < 1 / 2 then f else if 1 / 2 < r then f + 1 else if even f then f else f + 1)"

definition double :: "rat \<Rightarrow> rat" where
  \<comment> \<open>the nearest double: a multiple of \<open>2^(e - 52)\<close> where \<open>2^e \<le> |x| < 2^(e + 1)\<close>\<close>
  "double x =
     (if x = 0 then 0
      else (let u = 2 powi (exponent \<bar>x\<bar> - 52) in of_int (roundEven (x / u)) * u))"

definition num :: "nat \<Rightarrow> rat" where
  \<comment> \<open>the number that an array length is\<close>
  "num n = double (of_nat n)"


section \<open>Regular expressions of the scanner\<close>

text \<open>
  The scanner's regular expressions are sequences of literals, single characters of a
  class, greedy repetitions of a class and capturing groups around such a repetition; one
  of them starts with an optional non-capturing group. \<open>matchAtoms\<close> is the backtracking
  matcher of ECMAScript on this fragment: a greedy repetition takes the longest run first
  and gives characters back one at a time until the rest of the pattern matches.
\<close>

datatype atom =
    Lit string
  | One "char \<Rightarrow> bool"
  | Many "char \<Rightarrow> bool" nat
  | Cap "char \<Rightarrow> bool" nat

datatype regex =
    Regex "atom list"
  | OptThen "atom list" "atom list"

fun backtrack :: "(nat \<Rightarrow> 'b option) \<Rightarrow> nat \<Rightarrow> nat \<Rightarrow> 'b option" where
  \<comment> \<open>the first success of \<open>f n, f (n - 1), \<dots>, f m\<close>\<close>
  "backtrack f m 0 = (if m = 0 then f 0 else None)"
| "backtrack f m (Suc n) =
     (if Suc n < m then None
      else case f (Suc n) of Some y \<Rightarrow> Some y | None \<Rightarrow> backtrack f m n)"

fun matchAtoms :: "atom list \<Rightarrow> string \<Rightarrow> (string list \<times> string) option" where
  \<comment> \<open>the captured groups and the text left after the match\<close>
  "matchAtoms [] s = Some ([], s)"
| "matchAtoms (Lit l # as) s =
     (if startsWith s l then matchAtoms as (drop (length l) s) else None)"
| "matchAtoms (One c # as) s =
     (case s of [] \<Rightarrow> None | x # xs \<Rightarrow> if c x then matchAtoms as xs else None)"
| "matchAtoms (Many c m # as) s =
     backtrack (\<lambda>k. matchAtoms as (drop k s)) m (length (takeWhile c s))"
| "matchAtoms (Cap c m # as) s =
     backtrack (\<lambda>k. map_option (\<lambda>(caps, r). (take k s # caps, r)) (matchAtoms as (drop k s)))
       m (length (takeWhile c s))"

fun captures :: "atom list \<Rightarrow> nat" where
  "captures [] = 0"
| "captures (Cap c m # as) = Suc (captures as)"
| "captures (a # as) = captures as"

fun matchAt :: "regex \<Rightarrow> string \<Rightarrow> (string option list \<times> string) option" where
  \<comment> \<open>a group that did not take part in the match is \<open>undefined\<close>: \<^term>\<open>None\<close>\<close>
  "matchAt (Regex as) s = map_option (\<lambda>(caps, r). (map Some caps, r)) (matchAtoms as s)"
| "matchAt (OptThen pre as) s =
     (case matchAtoms (pre @ as) s of
        Some (caps, r) \<Rightarrow> Some (map Some caps, r)
      | None \<Rightarrow>
          map_option (\<lambda>(caps, r). (replicate (captures pre) None @ map Some caps, r))
            (matchAtoms as s))"

record rmatch =
  index :: nat
  groups :: "string option list"
  lastIndex :: nat

fun search :: "regex \<Rightarrow> string \<Rightarrow> nat \<Rightarrow> rmatch option" where
  \<comment> \<open>the leftmost match in the text \<open>s\<close> that starts at position \<open>i\<close> of the content\<close>
  "search r [] i =
     (case matchAt r [] of
        None \<Rightarrow> None
      | Some (caps, rest) \<Rightarrow> Some \<lparr>index = i, groups = caps, lastIndex = i\<rparr>)"
| "search r (x # xs) i =
     (case matchAt r (x # xs) of
        None \<Rightarrow> search r xs (Suc i)
      | Some (caps, rest) \<Rightarrow>
          Some \<lparr>index = i, groups = caps, lastIndex = i + (length (x # xs) - length rest)\<rparr>)"

definition exec :: "regex \<Rightarrow> string \<Rightarrow> nat \<Rightarrow> rmatch option" where
  \<comment> \<open>\<open>pattern.exec(content)\<close> of a global pattern whose \<open>lastIndex\<close> is \<open>li\<close>\<close>
  "exec r content li = (if length content < li then None else search r (drop li content) li)"

lemma search_bounds:
  "search r s i = Some m \<Longrightarrow> i \<le> index m \<and> index m \<le> lastIndex m \<and> lastIndex m \<le> i + length s"
proof (induction s arbitrary: i)
  case Nil
  then show ?case by (auto split: option.splits)
next
  case (Cons x xs)
  show ?case
  proof (cases "matchAt r (x # xs)")
    case None
    with Cons.prems have "search r xs (Suc i) = Some m" by simp
    from Cons.IH [OF this] show ?thesis by simp
  next
    case (Some p)
    with Cons.prems show ?thesis by (cases p) auto
  qed
qed

lemma exec_bounds:
  "exec r content li = Some m \<Longrightarrow>
     li \<le> index m \<and> index m \<le> lastIndex m \<and> lastIndex m \<le> length content"
  using search_bounds [of r "drop li content" li m]
  by (auto simp: exec_def split: if_splits)

function execAll :: "regex \<Rightarrow> string \<Rightarrow> nat \<Rightarrow> rmatch list option" where
  \<comment> \<open>\<open>while ((match = pattern.exec(content)) !== null)\<close>: the matches in order. An empty
      match leaves \<open>lastIndex\<close> where it is and the loop never ends: \<^term>\<open>None\<close>.\<close>
  "execAll r content li =
     (case exec r content li of
        None \<Rightarrow> Some []
      | Some m \<Rightarrow>
          if lastIndex m = index m then None
          else map_option ((#) m) (execAll r content (lastIndex m)))"
  by pat_completeness auto
termination
proof (relation "measure (\<lambda>(r, content, li). length content - li)")
  show "wf (measure (\<lambda>(r, content, li). length content - li))" by simp
next
  fix r content li m
  assume "exec r content li = Some m" and "lastIndex m \<noteq> index m"
  with exec_bounds [of r content li m]
  have "length content - lastIndex m < length content - li"
    by linarith
  then show "((r, content, lastIndex m), (r, content, li)) \<in> measure (\<lambda>(r, content, li). length content - li)"
    by simp
qed

section \<open>The scanner's records\<close>

record functionRec =
  fn_name :: string
  fn_line :: nat
  fn_parameters :: "string list"
  fn_isAsync :: bool

record classRec =
  cls_name :: string
  cls_line :: nat
  cls_methods :: "string list"  \<comment> \<open>the methods, each known by its \<open>name\<close>\<close>

record importRec =
  imp_module :: string
  imp_line :: nat
  imp_type :: string

record callRec =
  call_function :: string
  call_line :: nat

record analysis =
  "functions" :: "functionRec list"
  classes :: "classRec list"
  "imports" :: "importRec list"
  exports :: "string list"
  variables :: "string list"
  calls :: "callRec list"

record sourceFile =
  path :: string
  relativePath :: string
  extension :: string
  name :: string
  sizeBytes :: nat  \<comment> \<open>the field \<open>size\<close>\<close>

record parsedFile = sourceFile +
  content :: string
  analysis :: analysis
  lineCount :: nat
  complexity :: rat

section \<open>Regex-based analysis (\<open>fallbackAnalysis\<close>)\<close>

definition functionPatterns :: "regex list" where
  "functionPatterns =
     [Regex [Lit ''function'', Many isSpace 1, Cap isWord 1],
      Regex [Lit ''const'', Many isSpace 1, Cap isWord 1, Many isSpace 0, Lit ''='',
             Many isSpace 0, Lit ''(''],
      Regex [Lit ''let'', Many isSpace 1, Cap isWord 1, Many isSpace 0, Lit ''='',
             Many isSpace 0, Lit ''(''],
      Regex [Cap isWord 1, Many isSpace 0, Lit '':'', Many isSpace 0, Lit ''function''],
      Regex [Cap isWord 1, Many isSpace 0, Lit ''=>'', Many isSpace 0]]"

definition classPattern :: regex where
  "classPattern = Regex [Lit ''class'', Many isSpace 1, Cap isWord 1]"

definition importPatterns :: "regex list" where
  "importPatterns =
     [Regex [Lit ''import'', Many isDot 0, Lit ''from'', Many isSpace 1, One isQuote,
             Cap notQuote 1, One isQuote],
      Regex [Lit ''require('', One isQuote, Cap notQuote 1, One isQuote, Lit '')'']]"

definition funcPattern :: regex where
  "funcPattern = Regex [Lit ''def'', Many isSpace 1, Cap isWord 1]"

definition importPattern :: regex where
  "importPattern =
     OptThen [Lit ''from'', Many isSpace 1, Cap isWord 1, Many isSpace 1]
             [Lit ''import'', Many isSpace 1, Cap notHashNewline 1]"

definition matchGroup :: "rmatch \<Rightarrow> nat \<Rightarrow> string option" where
  \<comment> \<open>\<open>match[i]\<close> for a group number \<open>i\<close>; \<^term>\<open>None\<close> is \<open>undefined\<close>\<close>
  "matchGroup m i = (if 0 < i \<and> i \<le> length (groups m) then groups m ! (i - 1) else None)"

definition groupStr :: "rmatch \<Rightarrow> nat \<Rightarrow> string" where
  \<comment> \<open>\<open>match[i]\<close> where the group takes part in every match (\<open>scanner_groups_defined\<close>)\<close>
  "groupStr m i = (case matchGroup m i of Some s \<Rightarrow> s | None \<Rightarrow> [])"

definition lineAt :: "string \<Rightarrow> nat \<Rightarrow> nat" where
  \<comment> \<open>\<open>content.substring(0, match.index).split('\n').length\<close>\<close>
  "lineAt c i = length (split (substring c 0 (int i)) (CHR 0x0A))"

definition functionOf :: "string \<Rightarrow> rmatch \<Rightarrow> functionRec" where
  "functionOf c m =
     \<lparr>fn_name = groupStr m 1,
      fn_line = lineAt c (index m),
      fn_parameters = [],
      fn_isAsync = includesStr (substring c (int (index m) - 10) (int (index m))) ''async''\<rparr>"

definition classOf :: "string \<Rightarrow> rmatch \<Rightarrow> classRec" where
  "classOf c m = \<lparr>cls_name = groupStr m 1, cls_line = lineAt c (index m), cls_methods = []\<rparr>"

definition importOf :: "string \<Rightarrow> rmatch \<Rightarrow> importRec" where
  "importOf c m =
     \<lparr>imp_module = groupStr m 1, imp_line = lineAt c (index m), imp_type = ''import''\<rparr>"

definition pyImportOf :: "string \<Rightarrow> rmatch \<Rightarrow> importRec" where
  \<comment> \<open>\<open>match[1] || match[2].trim()\<close>: an undefined or empty first group gives way to the second\<close>
  "pyImportOf c m =
     \<lparr>imp_module =
        (case matchGroup m 1 of
           Some s \<Rightarrow> if s = [] then trim (groupStr m 2) else s
         | None \<Rightarrow> trim (groupStr m 2)),
      imp_line = lineAt c (index m),
      imp_type = ''import''\<rparr>"

fun execEach :: "regex list \<Rightarrow> string \<Rightarrow> rmatch list option" where
  \<comment> \<open>\<open>patterns.forEach\<close>: every pattern in turn, each from the start of the content\<close>
  "execEach [] c = Some []"
| "execEach (p # ps) c =
     (case execAll p c 0 of
        None \<Rightarrow> None
      | Some ms \<Rightarrow> map_option ((@) ms) (execEach ps c))"

definition emptyAnalysis :: analysis where
  "emptyAnalysis =
     \<lparr>functions = [], classes = [], imports = [], exports = [], variables = [], calls = []\<rparr>"

definition jsRules :: "string \<Rightarrow> analysis \<Rightarrow> analysis option" where
  "jsRules c a =
     (case execEach functionPatterns c of
        None \<Rightarrow> None
      | Some fs \<Rightarrow>
     (case execAll classPattern c 0 of
        None \<Rightarrow> None
      | Some cs \<Rightarrow>
     (case execEach importPatterns c of
        None \<Rightarrow> None
      | Some is \<Rightarrow>
          Some (a\<lparr>functions := functions a @ map (functionOf c) fs,
                   classes := classes a @ map (classOf c) cs,
                   imports := imports a @ map (importOf c) is\<rparr>))))"

definition pyRules :: "string \<Rightarrow> analysis \<Rightarrow> analysis option" where
  "pyRules c a =
     (case execAll funcPattern c 0 of
        None \<Rightarrow> None
      | Some fs \<Rightarrow>
     (case execAll classPattern c 0 of
        None \<Rightarrow> None
      | Some cs \<Rightarrow>
     (case execAll importPattern c 0 of
        None \<Rightarrow> None
      | Some is \<Rightarrow>
          Some (a\<lparr>functions := functions a @ map (functionOf c) fs,
                   classes := classes a @ map (classOf c) cs,
                   imports := imports a @ map (pyImportOf c) is\<rparr>))))"

definition fallbackAnalysis :: "string \<Rightarrow> 'a sourceFile_scheme \<Rightarrow> analysis option" where
  \<comment> \<open>\<^term>\<open>None\<close>: the analysis does not return\<close>
  "fallbackAnalysis c file =
     (case (if extension file \<in> set [''js'', ''jsx'', ''ts'', ''tsx'', ''mjs'']
            then jsRules c emptyAnalysis else Some emptyAnalysis) of
        None \<Rightarrow> None
      | Some a \<Rightarrow> if extension file = ''py'' then pyRules c a else Some a)"

section \<open>Parsing the files (\<open>parseFiles\<close>)\<close>

datatype error = ReadError | ParseError

text \<open>
  The scanner's state and what it calls outside the repository: whether the tree-sitter
  parsers were loaded, the parser of each extension, the syntax-tree analysis of a parsed
  file (\<open>parser.parse\<close> followed by \<open>analyzeAST\<close>, which may throw) and \<open>fs.readFile\<close>.
\<close>

record 'p scanner =
  treeSitterLoaded :: bool
  parsers :: "string \<Rightarrow> 'p option"
  analyzeAST :: "'p \<Rightarrow> string \<Rightarrow> sourceFile \<Rightarrow> error + analysis"
  readFile :: "string \<Rightarrow> error + string"

definition calculateComplexity :: "analysis \<Rightarrow> rat" where
  \<comment> \<open>\<open>functions.length + classes.length * 2 + calls.length * 0.1\<close>, each operation in doubles\<close>
  "calculateComplexity a =
     double (double (num (length (functions a)) + double (num (length (classes a)) * 2))
             + double (num (length (calls a)) * double (1 / 10)))"

definition parsed :: "sourceFile \<Rightarrow> string \<Rightarrow> analysis \<Rightarrow> nat \<Rightarrow> rat \<Rightarrow> parsedFile" where
  \<comment> \<open>\<open>{...file, content, analysis, lineCount, complexity}\<close>\<close>
  "parsed file c a n k =
     \<lparr>path = path file, relativePath = relativePath file, extension = extension file,
      name = name file, sizeBytes = sizeBytes file,
      content = c, analysis = a, lineCount = n, complexity = k\<rparr>"

definition analyse :: "'p scanner \<Rightarrow> string \<Rightarrow> sourceFile \<Rightarrow> (error + analysis) option" where
  \<comment> \<open>the choice between the syntax tree and the regex analysis; \<^term>\<open>None\<close>: no return\<close>
  "analyse sc c file =
     (if treeSitterLoaded sc then
        (case parsers sc (extension file) of
           None \<Rightarrow> map_option Inr (fallbackAnalysis c file)
         | Some parser \<Rightarrow> Some (analyzeAST sc parser c file))
      else map_option Inr (fallbackAnalysis c file))"

definition parseFile :: "'p scanner \<Rightarrow> sourceFile \<Rightarrow> parsedFile option" where
  \<comment> \<open>one turn of the loop: the \<open>try\<close> block, and the \<open>catch\<close> block on any error\<close>
  "parseFile sc file =
     (case readFile sc (path file) of
        Inl e \<Rightarrow> Some (parsed file [] emptyAnalysis 0 0)
      | Inr c \<Rightarrow>
          (case analyse sc c file of
             None \<Rightarrow> None
           | Some (Inl e) \<Rightarrow> Some (parsed file [] emptyAnalysis 0 0)
           | Some (Inr a) \<Rightarrow>
               Some (parsed file c a (length (split c (CHR 0x0A))) (calculateComplexity a))))"

fun parseFiles :: "'p scanner \<Rightarrow> sourceFile list \<Rightarrow> parsedFile list option" where
  "parseFiles sc [] = Some []"
| "parseFiles sc (file # files) =
     (case parseFile sc file of
        None \<Rightarrow> None
      | Some p \<Rightarrow> map_option ((#) p) (parseFiles sc files))"

section \<open>Metrics (\<open>calculateMetrics\<close>)\<close>




section \<open>Paths (\<open>path.dirname\<close>, \<open>path.resolve\<close>)\<close>

text \<open>
  Node's \<open>path\<close> module on a POSIX system. \<open>path.resolve\<close> reads the working directory of
  the process when its arguments give no absolute path: it is the parameter \<open>cwd\<close>.
\<close>

fun dirnameEnd :: "string \<Rightarrow> nat \<Rightarrow> bool \<Rightarrow> nat option" where
  \<comment> \<open>the scan from the last character down to index 1 for the slash that ends the directory\<close>
  "dirnameEnd p 0 matchedSlash = None"
| "dirnameEnd p (Suc i) matchedSlash =
     (if p ! Suc i = CHR ''/'' then
        (if \<not> matchedSlash then Some (Suc i) else dirnameEnd p i matchedSlash)
      else dirnameEnd p i False)"

definition path_dirname :: "string \<Rightarrow> string" where
  "path_dirname p =
     (if p = [] then ''.''
      else
        (let hasRoot = (hd p = CHR ''/'') in
         case dirnameEnd p (length p - 1) True of
           None \<Rightarrow> if hasRoot then ''/'' else ''.''
         | Some e \<Rightarrow> if hasRoot \<and> e = 1 then ''//'' else take e p))"

fun resolveArgs :: "string list \<Rightarrow> string \<Rightarrow> string \<times> bool" where
  \<comment> \<open>the arguments from the last to the first, then the working directory, until one is absolute\<close>
  "resolveArgs [] resolvedPath = (resolvedPath, False)"
| "resolveArgs (p # ps) resolvedPath =
     (if p = [] then resolveArgs ps resolvedPath
      else if hd p = CHR ''/'' then (p @ ''/'' @ resolvedPath, True)
      else resolveArgs ps (p @ ''/'' @ resolvedPath))"

fun normalizeSegments :: "bool \<Rightarrow> string list \<Rightarrow> string list \<Rightarrow> string list" where
  \<comment> \<open>\<open>normalizeString\<close> on the segments between slashes: empty segments and \<open>.\<close> are
      dropped, \<open>..\<close> removes the segment before it; \<open>res\<close> is the result so far, reversed\<close>
  "normalizeSegments allowAboveRoot res [] = rev res"
| "normalizeSegments allowAboveRoot res (seg # segs) =
     (if seg = [] \<or> seg = ''.'' then normalizeSegments allowAboveRoot res segs
      else if seg = ''..'' then
        (case res of
           [] \<Rightarrow> normalizeSegments allowAboveRoot (if allowAboveRoot then [''..''] else []) segs
         | r # rs \<Rightarrow>
             if r = ''..'' then
               normalizeSegments allowAboveRoot (if allowAboveRoot then ''..'' # res else res) segs
             else normalizeSegments allowAboveRoot rs segs)
      else normalizeSegments allowAboveRoot (seg # res) segs)"

fun joinWith :: "char \<Rightarrow> string list \<Rightarrow> string" where
  "joinWith c [] = []"
| "joinWith c [x] = x"
| "joinWith c (x # y # ys) = x @ c # joinWith c (y # ys)"

definition path_resolve :: "string \<Rightarrow> string list \<Rightarrow> string" where
  "path_resolve cwd args =
     (case resolveArgs (rev args @ [cwd]) [] of
        (resolvedPath, resolvedAbsolute) \<Rightarrow>
          (let normal = joinWith (CHR ''/'')
                 (normalizeSegments (\<not> resolvedAbsolute) [] (split resolvedPath (CHR ''/'')))
           in if resolvedAbsolute then CHR ''/'' # normal
              else if normal \<noteq> [] then normal else ''.''))"

section \<open>The dependency graph (\<open>buildDependencyGraph\<close>)\<close>

record node =
  node_id :: string
  node_name :: string
  node_type :: string
  node_size :: nat
  node_complexity :: rat
  node_functions :: nat
  node_classes :: nat

record edge =
  source :: string
  target :: string
  edge_type :: string
  weight :: nat

record graph =
  nodes :: "node list"
  edges :: "edge list"
  clusters :: "string list"

definition resolveImportPath :: "string \<Rightarrow> string \<Rightarrow> 'a sourceFile_scheme \<Rightarrow> string option" where
  \<comment> \<open>\<open>specifier\<close> is the parameter \<open>module\<close>; \<^term>\<open>None\<close> is \<open>null\<close>\<close>
  "resolveImportPath cwd specifier fromFile =
     (if startsWith specifier ''./'' \<or> startsWith specifier ''../''
      then Some (path_resolve cwd [path_dirname (path fromFile), specifier])
      else None)"

definition nodeOf :: "parsedFile \<Rightarrow> node" where
  "nodeOf file =
     \<lparr>node_id = relativePath file,
      node_name = name file,
      node_type = ''file'',
      node_size = sizeBytes file,
      node_complexity = complexity file,
      node_functions = length (functions (analysis file)),
      node_classes = length (classes (analysis file))\<rparr>"

definition edgesOf :: "string \<Rightarrow> parsedFile \<Rightarrow> edge list" where
  \<comment> \<open>the inner loop over the imports of one file; \<open>if (targetPath)\<close> lets a non-empty string through\<close>
  "edgesOf cwd file =
     concat (map (\<lambda>imp.
        case resolveImportPath cwd (imp_module imp) file of
          None \<Rightarrow> []
        | Some targetPath \<Rightarrow>
            if targetPath = [] then []
            else [\<lparr>source = relativePath file, target = targetPath,
                   edge_type = ''import'', weight = 1\<rparr>])
       (imports (analysis file)))"

definition buildDependencyGraph :: "string \<Rightarrow> parsedFile list \<Rightarrow> graph" where
  "buildDependencyGraph cwd parsedFiles =
     \<lparr>nodes = map nodeOf parsedFiles,
      edges = concat (map (edgesOf cwd) parsedFiles),
      clusters = []\<rparr>"

section \<open>Architectural patterns\<close>

record 'e verdict =
  detected :: bool
  confidence :: rat
  evidence :: 'e

record mvcEvidence =
  hasModels :: bool
  hasViews :: bool
  hasControllers :: bool

definition detectMVCPattern :: "parsedFile list \<Rightarrow> mvcEvidence verdict" where
  "detectMVCPattern files =
     (let hasModels = list_ex (\<lambda>f. includesStr (toLowerCase (name f)) ''model''
                                   \<or> includesStr (relativePath f) ''/models/'') files;
          hasViews = list_ex (\<lambda>f. includesStr (toLowerCase (name f)) ''view''
                                  \<or> includesStr (relativePath f) ''/views/'') files;
          hasControllers = list_ex (\<lambda>f. includesStr (toLowerCase (name f)) ''controller''
                                        \<or> includesStr (relativePath f) ''/controllers/'') files
      in \<lparr>detected = (hasModels \<and> hasViews \<and> hasControllers),
          confidence = (of_bool hasModels + of_bool hasViews + of_bool hasControllers) / 3,
          evidence = \<lparr>hasModels = hasModels, hasViews = hasViews,
                      hasControllers = hasControllers\<rparr>\<rparr>)"

definition detectModulePattern :: "parsedFile list \<Rightarrow> bool verdict" where
  \<comment> \<open>the evidence is the field \<open>modularStructure\<close>\<close>
  "detectModulePattern files =
     (let hasExports = list_ex (\<lambda>f. 0 < length (exports (analysis f))) files;
          hasImports = list_ex (\<lambda>f. 0 < length (imports (analysis f))) files
      in \<lparr>detected = (hasExports \<and> hasImports), confidence = 8 / 10, evidence = True\<rparr>)"

definition detectSingletonPattern :: "parsedFile list \<Rightarrow> nat verdict" where
  \<comment> \<open>the evidence is the field \<open>singletonClasses\<close>\<close>
  "detectSingletonPattern files =
     (let singletonClasses =
            concat (map (\<lambda>f. filter (\<lambda>cls. includesStr (toLowerCase (cls_name cls)) ''singleton''
                                          \<or> list_ex (\<lambda>m. m = ''getInstance'') (cls_methods cls))
                                (classes (analysis f))) files)
      in \<lparr>detected = (0 < length singletonClasses), confidence = 9 / 10,
          evidence = length singletonClasses\<rparr>)"

definition observerNames :: "string list" where
  "observerNames = [''subscribe'', ''unsubscribe'', ''notify'', ''addEventListener'']"

definition detectObserverPattern :: "parsedFile list \<Rightarrow> nat verdict" where
  \<comment> \<open>the evidence is the field \<open>observerMethods\<close>\<close>
  "detectObserverPattern files =
     (let observerMethods =
            concat (map (\<lambda>f. filter (\<lambda>fn. toLowerCase (fn_name fn) \<in> set observerNames)
                                (functions (analysis f))) files)
      in \<lparr>detected = (0 < length observerMethods),
          confidence = min (of_nat (length observerMethods) / 10) 1,
          evidence = length observerMethods\<rparr>)"

section \<open>Example inputs\<close>

definition regexScanner :: "(string \<times> string) list \<Rightarrow> unit scanner" where
  \<comment> \<open>a scanner without tree-sitter, reading from the given files (path and content)\<close>
  "regexScanner disk =
     \<lparr>treeSitterLoaded = False,
      parsers = (\<lambda>ext. None),
      analyzeAST = (\<lambda>parser c f. Inl ParseError),
      readFile = (\<lambda>p. case map_of disk p of None \<Rightarrow> Inl ReadError | Some c \<Rightarrow> Inr c)\<rparr>"

definition fileAt :: "string \<Rightarrow> string \<Rightarrow> string \<Rightarrow> nat \<Rightarrow> sourceFile" where
  \<comment> \<open>the record \<open>findSourceFiles\<close> makes for the file \<open>rel\<close> of the repository \<open>/repo\<close>\<close>
  "fileAt rel nm ext n =
     \<lparr>path = ''/repo/'' @ rel, relativePath = rel, extension = ext, name = nm, sizeBytes = n\<rparr>"

definition appJs :: sourceFile where
  "appJs = fileAt ''app.js'' ''app.js'' ''js'' 33"

definition fooTwice :: string where
  "fooTwice = ''function foo(){} function foo(){}''"

definition exportingText :: string where
  "exportingText = ''module.exports = run; exports.stop = stop; export default main;''"

definition mvcDisk :: "(string \<times> string) list" where
  "mvcDisk = [(''/repo/models/user.js'', []), (''/repo/views/home.js'', []),
              (''/repo/controllers/home.js'', [])]"

definition mvcFiles :: "sourceFile list" where
  "mvcFiles = [fileAt ''models/user.js'' ''user.js'' ''js'' 0,
               fileAt ''views/home.js'' ''home.js'' ''js'' 0,
               fileAt ''controllers/home.js'' ''home.js'' ''js'' 0]"

definition domDisk :: "(string \<times> string) list" where
  "domDisk = [(''/repo/dom.js'', ''function addEventListener(){}'')]"

definition domFiles :: "sourceFile list" where
  "domFiles = [fileAt ''dom.js'' ''dom.js'' ''js'' 29]"

definition withExports :: parsedFile where
  \<comment> \<open>a parsed file whose analysis has an export and an import\<close>
  "withExports =
     parsed appJs [] (emptyAnalysis\<lparr>imports := [\<lparr>imp_module = ''./b'', imp_line = 1,
                                                  imp_type = ''import''\<rparr>],
                                    exports := [''default'']\<rparr>) 1 0"

definition lonelyDisk :: "(string \<times> string) list" where
  "lonelyDisk = [(''/repo/a.js'', ''const x = require(\"./missing\")'')]"

definition lonelyFiles :: "sourceFile list" where
  "lonelyFiles = [fileAt ''a.js'' ''a.js'' ''js'' 30]"

definition importDisk :: "(string \<times> string) list" where
  "importDisk = [(''/repo/a.js'', ''import b from \"./b\"\<newline>import _ from \"lodash\"''),
                 (''/repo/b.js'', [])]"

definition importFiles :: "sourceFile list" where
  "importFiles = [fileAt ''a.js'' ''a.js'' ''js'' 43, fileAt ''b.js'' ''b.js'' ''js'' 0]"



definition moduleDisk :: "(string \<times> string) list" where
  "moduleDisk = [(''/repo/lib.js'', ''module.exports = run; exports.stop = stop; export default main;''),
                 (''/repo/main.js'', ''const lib = require(\"./lib\")'')]"

definition moduleFiles :: "sourceFile list" where
  "moduleFiles = [fileAt ''lib.js'' ''lib.js'' ''js'' 63, fileAt ''main.js'' ''main.js'' ''js'' 28]"

definition threeCalls :: analysis where
  \<comment> \<open>an analysis of the syntax tree with three calls and nothing else\<close>
  "threeCalls =
     emptyAnalysis\<lparr>calls := [\<lparr>call_function = ''log'', call_line = 1\<rparr>,
                                \<lparr>call_function = ''log'', call_line = 2\<rparr>,
                                \<lparr>call_function = ''log'', call_line = 3\<rparr>]\<rparr>"

definition aFunction :: functionRec where
  "aFunction = \<lparr>fn_name = ''f'', fn_line = 1, fn_parameters = [], fn_isAsync = False\<rparr>"

definition aClass :: classRec where
  "aClass = \<lparr>cls_name = ''A'', cls_line = 1, cls_methods = []\<rparr>"




section \<open>Rounding to the nearest double\<close>

section \<open>Rounding to doubles\<close>

lemma bitLength_bounds: "0 < n \<Longrightarrow> 2 ^ (bitLength n - 1) \<le> n \<and> n < 2 ^ bitLength n"
proof (induction n rule: bitLength.induct)
  case (1 n)
  show ?case
  proof (cases "n div 2 = 0")
    case True
    with "1.prems" have "n = 1" by (cases n) (auto simp: div_eq_0_iff)
    then show ?thesis by (simp add: bitLength.simps)
  next
    case False
    with "1.IH" "1.prems" have ih: "2 ^ (bitLength (n div 2) - 1) \<le> n div 2" "n div 2 < 2 ^ bitLength (n div 2)"
      by auto
    from False have pos: "0 < bitLength (n div 2)" by (simp add: bitLength.simps [of "n div 2"])
    have b: "bitLength n = Suc (bitLength (n div 2))" using "1.prems" by (simp add: bitLength.simps [of n])
    from pos have "(2::nat) ^ bitLength (n div 2) = 2 * 2 ^ (bitLength (n div 2) - 1)"
      by (cases "bitLength (n div 2)") simp_all
    with ih b show ?thesis by (simp; linarith)
  qed
qed

lemma pow_le_of_nat: "2 ^ k \<le> n \<Longrightarrow> (2::rat) ^ k \<le> of_nat n"
proof -
  assume "2 ^ k \<le> n"
  then have "(of_nat (2 ^ k) :: rat) \<le> of_nat n" by (simp only: of_nat_le_iff)
  then show ?thesis by simp
qed

lemma of_nat_less_pow: "n < 2 ^ k \<Longrightarrow> of_nat n + 1 \<le> (2::rat) ^ k"
proof -
  assume "n < 2 ^ k"
  then have "Suc n \<le> 2 ^ k" by simp
  then have "(of_nat (Suc n) :: rat) \<le> of_nat (2 ^ k)" by (simp only: of_nat_le_iff)
  then show ?thesis by simp
qed

lemma powi_nat: "(2::rat) powi int k = 2 ^ k"
  by simp

lemma powi_neg_nat: "(2::rat) powi (- int k) = 1 / 2 ^ k"
  by (simp add: power_int_minus divide_inverse)

lemma exponent_bounds:
  assumes "0 < x"
  shows "2 powi exponent x \<le> x \<and> x < 2 powi (exponent x + 1)"
proof (cases "1 \<le> x")
  case True
  define n where "n = nat \<lfloor>x\<rfloor>"
  from True have fl: "1 \<le> \<lfloor>x\<rfloor>" by linarith
  then have n0: "0 < n" and nn: "int n = \<lfloor>x\<rfloor>" unfolding n_def by simp_all
  have "of_int \<lfloor>x\<rfloor> \<le> x" "x < of_int \<lfloor>x\<rfloor> + 1" by linarith+
  then have n: "of_nat n \<le> x" "x < of_nat n + 1"
    unfolding nn [symmetric] by simp_all
  from bitLength_bounds [OF n0] have b: "2 ^ (bitLength n - 1) \<le> n" "n < 2 ^ bitLength n" by auto
  from n0 have pos: "0 < bitLength n" by (simp add: bitLength.simps [of n])
  have e: "exponent x = int (bitLength n - 1)" using True pos by (simp add: exponent_def n_def of_nat_diff)
  have e1: "exponent x + 1 = int (bitLength n)" using e pos by simp
  have "(2::rat) powi exponent x = 2 ^ (bitLength n - 1)" unfolding e by (rule powi_nat)
  moreover have "(2::rat) powi (exponent x + 1) = 2 ^ bitLength n" unfolding e1 by (rule powi_nat)
  moreover note pow_le_of_nat [OF b(1)] of_nat_less_pow [OF b(2)]
  ultimately show ?thesis using n by linarith
next
  case False
  define c where "c = \<lceil>1 / x\<rceil>"
  define t where "t = nat (c - 1)"
  from False assms have "1 < 1 / x" by simp
  then have "1 < c" unfolding c_def by (simp only: less_ceiling_iff of_int_1)
  then have t0: "0 < t" and tt: "c = int t + 1" unfolding t_def by simp_all
  have "1 / x \<le> of_int c" "of_int c - 1 < 1 / x"
    unfolding c_def by (rule le_of_int_ceiling) (rule ceiling_correct [THEN conjunct1])
  moreover have "(of_int c :: rat) = of_nat t + 1" unfolding tt by simp
  ultimately have up: "1 / x \<le> of_nat t + 1" and lo: "of_nat t < 1 / x" by simp_all
  from bitLength_bounds [OF t0] have b: "2 ^ (bitLength t - 1) \<le> t" "t < 2 ^ bitLength t" by auto
  from t0 have pos: "0 < bitLength t" by (simp add: bitLength.simps [of t])
  have e: "exponent x = - int (bitLength t)" using False by (simp add: exponent_def t_def c_def)
  have e1: "exponent x + 1 = - int (bitLength t - 1)" using e pos by (simp add: of_nat_diff)
  have p1: "(2::rat) powi exponent x = 1 / 2 ^ bitLength t" unfolding e by (rule powi_neg_nat)
  have p2: "(2::rat) powi (exponent x + 1) = 1 / 2 ^ (bitLength t - 1)" unfolding e1 by (rule powi_neg_nat)
  from up of_nat_less_pow [OF b(2)] have "1 / x \<le> 2 ^ bitLength t" by linarith
  with assms have l: "1 / 2 ^ bitLength t \<le> x" by (simp add: field_simps)
  from lo pow_le_of_nat [OF b(1)] have "2 ^ (bitLength t - 1) < 1 / x" by linarith
  with assms have u: "x < 1 / 2 ^ (bitLength t - 1)" by (simp add: field_simps)
  from l u show ?thesis unfolding p1 p2 by simp
qed

lemma exponent_eqI:
  assumes "2 powi e \<le> x" and "x < 2 powi (e + 1)"
  shows "exponent x = e"
proof -
  have "(0::rat) < 2 powi e" by (simp add: zero_less_power_int)
  with assms(1) have pos: "0 < x" by linarith
  from exponent_bounds [OF pos] have b: "2 powi exponent x \<le> x" "x < 2 powi (exponent x + 1)"
    by auto
  have "\<not> exponent x < e"
  proof
    assume "exponent x < e"
    then have "exponent x + 1 \<le> e" by simp
    then have "(2::rat) powi (exponent x + 1) \<le> 2 powi e" by (rule power_int_increasing) simp
    with b(2) assms(1) show False by linarith
  qed
  moreover have "\<not> e < exponent x"
  proof
    assume "e < exponent x"
    then have "e + 1 \<le> exponent x" by simp
    then have "(2::rat) powi (e + 1) \<le> 2 powi exponent x" by (rule power_int_increasing) simp
    with b(1) assms(2) show False by linarith
  qed
  ultimately show ?thesis by simp
qed

lemma exponent_mono:
  assumes "0 < x" and "x \<le> y"
  shows "exponent x \<le> exponent y"
proof (rule ccontr)
  assume "\<not> exponent x \<le> exponent y"
  then have "exponent y + 1 \<le> exponent x" by simp
  then have "(2::rat) powi (exponent y + 1) \<le> 2 powi exponent x" by (rule power_int_increasing) simp
  moreover from assms have "0 < y" by simp
  ultimately show False using exponent_bounds [OF assms(1)] exponent_bounds [OF \<open>0 < y\<close>] assms(2)
    by linarith
qed

lemma roundEven_cases: "roundEven q = \<lfloor>q\<rfloor> \<or> roundEven q = \<lfloor>q\<rfloor> + 1"
  by (simp add: roundEven_def Let_def)

lemma roundEven_near: "\<bar>of_int (roundEven q) - q\<bar> \<le> 1 / 2"
proof -
  have f: "of_int \<lfloor>q\<rfloor> \<le> q" "q < of_int \<lfloor>q\<rfloor> + 1" by linarith+
  show ?thesis
  proof (cases "q - of_int \<lfloor>q\<rfloor> < 1 / 2")
    case True
    then have "roundEven q = \<lfloor>q\<rfloor>" by (simp add: roundEven_def Let_def)
    with True f show ?thesis by simp
  next
    case False
    show ?thesis
    proof (cases "1 / 2 < q - of_int \<lfloor>q\<rfloor>")
      case True
      with False have "roundEven q = \<lfloor>q\<rfloor> + 1" by (simp add: roundEven_def Let_def)
      with True f show ?thesis by simp
    next
      case F2: False
      with False have eq: "q - of_int \<lfloor>q\<rfloor> = 1 / 2" by simp
      from roundEven_cases [of q] show ?thesis
      proof
        assume "roundEven q = \<lfloor>q\<rfloor>"
        with eq show ?thesis by simp
      next
        assume "roundEven q = \<lfloor>q\<rfloor> + 1"
        with eq show ?thesis by simp
      qed
    qed
  qed
qed

lemma roundEven_of_int [simp]: "roundEven (of_int k) = k"
  by (simp add: roundEven_def)

lemma roundEven_mono:
  assumes "q \<le> q'"
  shows "roundEven q \<le> roundEven q'"
proof (cases "\<lfloor>q\<rfloor> = \<lfloor>q'\<rfloor>")
  case True
  from assms True have r: "q - of_int \<lfloor>q\<rfloor> \<le> q' - of_int \<lfloor>q\<rfloor>" by simp
  show ?thesis using r True
    by (auto simp: roundEven_def Let_def)
next
  case False
  from assms have "\<lfloor>q\<rfloor> \<le> \<lfloor>q'\<rfloor>" by (rule floor_mono)
  with False have "\<lfloor>q\<rfloor> + 1 \<le> \<lfloor>q'\<rfloor>" by simp
  moreover from roundEven_cases [of q] have "roundEven q \<le> \<lfloor>q\<rfloor> + 1" by auto
  moreover from roundEven_cases [of q'] have "\<lfloor>q'\<rfloor> \<le> roundEven q'" by auto
  ultimately show ?thesis by simp
qed

lemma roundEven_nearest:
  assumes "\<bar>q - of_int m\<bar> < 1 / 2"
  shows "roundEven q = m"
proof -
  from roundEven_near [of q] assms have "\<bar>(of_int (roundEven q) :: rat) - of_int m\<bar> < 1" by linarith
  then have "\<bar>(of_int (roundEven q - m) :: rat)\<bar> < of_int 1" by simp
  then have "\<bar>roundEven q - m\<bar> < 1" by (simp only: of_int_abs [symmetric] of_int_less_iff)
  then show ?thesis by simp
qed

lemma roundEven_tie:
  assumes "q = of_int m + 1 / 2"
  shows "roundEven q = (if even m then m else m + 1)"
proof -
  have "\<lfloor>q\<rfloor> = m" unfolding assms by linarith
  then show ?thesis unfolding roundEven_def Let_def assms by simp
qed

lemma double_zero [simp]: "double 0 = 0"
  by (simp add: double_def)

lemma double_at:
  assumes "2 powi e \<le> \<bar>x\<bar>" and "\<bar>x\<bar> < 2 powi (e + 1)"
  shows "double x = of_int (roundEven (x / 2 powi (e - 52))) * 2 powi (e - 52)"
proof -
  from exponent_eqI [OF assms] have e: "exponent \<bar>x\<bar> = e" .
  have "(0::rat) < 2 powi e" by (simp add: zero_less_power_int)
  with assms(1) have "0 < \<bar>x\<bar>" by linarith
  then have "x \<noteq> 0" by simp
  then show ?thesis by (simp add: double_def Let_def e)
qed

lemma double_error:
  "\<bar>double x - x\<bar> \<le> \<bar>x\<bar> / 2 ^ 53"
proof (cases "x = 0")
  case True
  then show ?thesis by simp
next
  case False
  define e where "e = exponent \<bar>x\<bar>"
  define u where "u = (2::rat) powi (e - 52)"
  from False have pos: "0 < \<bar>x\<bar>" by simp
  have u0: "0 < u" unfolding u_def by (simp add: zero_less_power_int)
  have d: "double x = of_int (roundEven (x / u)) * u"
    using False by (simp add: double_def Let_def u_def e_def)
  have "\<bar>of_int (roundEven (x / u)) - x / u\<bar> \<le> 1 / 2" by (rule roundEven_near)
  then have "\<bar>of_int (roundEven (x / u)) - x / u\<bar> * u \<le> 1 / 2 * u"
    using u0 by (simp only: mult_le_cancel_right_pos)
  moreover have "\<bar>of_int (roundEven (x / u)) - x / u\<bar> * u = \<bar>of_int (roundEven (x / u)) * u - x\<bar>"
  proof -
    have "\<bar>of_int (roundEven (x / u)) - x / u\<bar> * u = \<bar>(of_int (roundEven (x / u)) - x / u) * u\<bar>"
      using u0 by (simp add: abs_mult)
    also have "(of_int (roundEven (x / u)) - x / u) * u = of_int (roundEven (x / u)) * u - x"
      using u0 by (simp add: algebra_simps)
    finally show ?thesis .
  qed
  ultimately have err: "\<bar>double x - x\<bar> \<le> u / 2" unfolding d by simp
  have "u = 2 powi e / 2 powi 52" unfolding u_def by (rule power_int_diff) simp
  then have u2: "u / 2 = 2 powi e / 2 ^ 53" by simp
  from exponent_bounds [OF pos] have "2 powi e \<le> \<bar>x\<bar>" unfolding e_def by simp
  then have "2 powi e / 2 ^ 53 \<le> \<bar>x\<bar> / 2 ^ 53" by (simp add: divide_right_mono)
  with err u2 show ?thesis by simp
qed

lemma double_of_nat:
  assumes "n < 2 ^ 53"
  shows "double (of_nat n) = of_nat n"
proof (cases "n = 0")
  case True
  then show ?thesis by simp
next
  case False
  define x :: rat where "x = of_nat n"
  define e where "e = exponent x"
  from False have pos: "0 < x" unfolding x_def by simp
  from exponent_bounds [OF pos] have lo: "2 powi e \<le> x" unfolding e_def by simp
  from assms have "x < 2 ^ 53" unfolding x_def
    by (metis of_nat_less_iff of_nat_numeral of_nat_power)
  then have "x < 2 powi 53" by simp
  with lo have "(2::rat) powi e < 2 powi 53" by linarith
  then have "e < 53" by (rule power_int_le_imp_less_exp [rotated]) simp_all
  define k where "k = nat (52 - e)"
  from \<open>e < 53\<close> have k: "e - 52 = - int k" unfolding k_def by simp
  have u: "(2::rat) powi (e - 52) = 1 / 2 ^ k" unfolding k by (rule powi_neg_nat)
  have "x / (1 / 2 ^ k) = of_int (int n * 2 ^ k)" unfolding x_def by simp
  then have "roundEven (x / (1 / 2 ^ k)) = int n * 2 ^ k" by (simp only: roundEven_of_int)
  then have "of_int (roundEven (x / (1 / 2 ^ k))) * (1 / 2 ^ k) = x" unfolding x_def by simp
  moreover have "double x = of_int (roundEven (x / 2 powi (e - 52))) * 2 powi (e - 52)"
    using pos by (simp add: double_def Let_def e_def)
  ultimately show ?thesis unfolding u x_def by simp
qed

lemma double_positive_bounds:
  assumes "0 < x"
  shows "2 powi exponent x \<le> double x \<and> double x \<le> 2 powi (exponent x + 1)"
proof -
  define e where "e = exponent x"
  define u where "u = (2::rat) powi (e - 52)"
  have u0: "0 < u" unfolding u_def by (simp add: zero_less_power_int)
  from assms have d: "double x = of_int (roundEven (x / u)) * u"
    by (simp add: double_def Let_def u_def e_def)
  have ue: "u * 2 ^ 52 = 2 powi e"
  proof -
    have "u = 2 powi e / 2 powi 52" unfolding u_def by (rule power_int_diff) simp
    then show ?thesis by simp
  qed
  have ue1: "u * 2 ^ 53 = 2 powi (e + 1)"
  proof -
    have "(2::rat) powi (e + 1) = 2 powi e * 2" by (rule power_int_add_1) simp
    with ue show ?thesis by simp
  qed
  from exponent_bounds [OF assms] have b: "2 powi e \<le> x" "x < 2 powi (e + 1)" unfolding e_def by auto
  from b(1) ue u0 have "of_int (2 ^ 52) \<le> x / u" by (simp add: field_simps)
  then have "roundEven (of_int (2 ^ 52)) \<le> roundEven (x / u)" by (rule roundEven_mono)
  then have "(2::int) ^ 52 \<le> roundEven (x / u)" by (simp only: roundEven_of_int)
  then have "(of_int (2 ^ 52) :: rat) \<le> of_int (roundEven (x / u))" by (simp only: of_int_le_iff)
  then have l: "2 ^ 52 * u \<le> of_int (roundEven (x / u)) * u" using u0 by simp
  from b(2) ue1 u0 have "x / u \<le> of_int (2 ^ 53)" by (simp add: field_simps)
  then have "roundEven (x / u) \<le> roundEven (of_int (2 ^ 53))" by (rule roundEven_mono)
  then have "roundEven (x / u) \<le> (2::int) ^ 53" by (simp only: roundEven_of_int)
  then have "(of_int (roundEven (x / u)) :: rat) \<le> of_int (2 ^ 53)" by (simp only: of_int_le_iff)
  then have h: "of_int (roundEven (x / u)) * u \<le> 2 ^ 53 * u" using u0 by simp
  from l h ue ue1 show ?thesis unfolding d e_def [symmetric] by (simp add: mult.commute)
qed

lemma double_nonneg: "0 \<le> x \<Longrightarrow> 0 \<le> double x"
proof (cases "x = 0")
  case True
  then show ?thesis by simp
next
  case False
  assume "0 \<le> x"
  with False have "0 < x" by simp
  from double_positive_bounds [OF this] have "2 powi exponent x \<le> double x" by simp
  moreover have "(0::rat) < 2 powi exponent x" by (simp add: zero_less_power_int)
  ultimately show ?thesis by linarith
qed

lemma double_mono:
  assumes "0 \<le> x" and "x \<le> y"
  shows "double x \<le> double y"
proof (cases "x = 0")
  case True
  with assms show ?thesis by (simp add: double_nonneg)
next
  case False
  with assms have px: "0 < x" and py: "0 < y" by simp_all
  show ?thesis
  proof (cases "exponent x = exponent y")
    case True
    define u where "u = (2::rat) powi (exponent y - 52)"
    have u0: "0 < u" unfolding u_def by (simp add: zero_less_power_int)
    from px True have dx: "double x = of_int (roundEven (x / u)) * u"
      by (simp add: double_def Let_def u_def)
    from py have dy: "double y = of_int (roundEven (y / u)) * u"
      by (simp add: double_def Let_def u_def)
    from assms(2) u0 have "x / u \<le> y / u" by (simp add: divide_right_mono)
    then have "roundEven (x / u) \<le> roundEven (y / u)" by (rule roundEven_mono)
    then have "(of_int (roundEven (x / u)) :: rat) \<le> of_int (roundEven (y / u))"
      by (simp only: of_int_le_iff)
    with u0 show ?thesis unfolding dx dy by simp
  next
    case False
    with exponent_mono [OF px assms(2)] have "exponent x + 1 \<le> exponent y" by simp
    then have "(2::rat) powi (exponent x + 1) \<le> 2 powi exponent y"
      by (rule power_int_increasing) simp
    with double_positive_bounds [OF px] double_positive_bounds [OF py] show ?thesis by linarith
  qed
qed

lemma num_exact: "n < 2 ^ 53 \<Longrightarrow> num n = of_nat n"
  by (simp add: num_def double_of_nat)

lemma num_mono: "m \<le> n \<Longrightarrow> num m \<le> num n"
  unfolding num_def by (rule double_mono) simp_all

lemma num_nonneg: "0 \<le> num n"
  unfolding num_def by (rule double_nonneg) simp

lemma double_tenth: "double (1 / 10) = 3602879701896397 / 36028797018963968"
proof -
  have "double (1 / 10) = of_int (roundEven (1 / 10 / 2 powi (- 4 - 52))) * 2 powi (- 4 - 52)"
    by (rule double_at) (simp_all add: power_int_minus)
  moreover have "roundEven (1 / 10 / 2 powi (- 4 - 52)) = 7205759403792794"
    by (rule roundEven_nearest) (simp add: power_int_minus)
  ultimately show ?thesis by (simp add: power_int_minus)
qed

lemma double_nearest:
  assumes "2 powi e \<le> \<bar>x\<bar>" and "\<bar>x\<bar> < 2 powi (e + 1)"
    and "\<bar>x / 2 powi (e - 52) - of_int m\<bar> < 1 / 2"
  shows "double x = of_int m * 2 powi (e - 52)"
  using double_at [OF assms(1,2)] roundEven_nearest [OF assms(3)] by simp

lemma double_tie:
  assumes "2 powi e \<le> \<bar>x\<bar>" and "\<bar>x\<bar> < 2 powi (e + 1)"
    and "x / 2 powi (e - 52) = of_int m + 1 / 2"
  shows "double x = of_int (if even m then m else m + 1) * 2 powi (e - 52)"
  using double_at [OF assms(1,2)] roundEven_tie [OF assms(3)] by simp

lemma double_three_tenths:
  "double (10808639105689191 / 36028797018963968) = 1351079888211149 / 4503599627370496"
proof -
  have "double (10808639105689191 / 36028797018963968)
          = of_int (if even (5404319552844595 :: int) then 5404319552844595 else 5404319552844595 + 1)
              * 2 powi (- 2 - 52)"
    by (rule double_tie) (simp_all add: power_int_minus)
  then show ?thesis by (simp add: power_int_minus)
qed

lemma double_three_tenths_again:
  "double (1351079888211149 / 4503599627370496) = 1351079888211149 / 4503599627370496"
proof -
  have "double (1351079888211149 / 4503599627370496)
          = of_int 5404319552844596 * 2 powi (- 2 - 52)"
    by (rule double_nearest) (simp_all add: power_int_minus)
  then show ?thesis by (simp add: power_int_minus)
qed

lemma double_one_and_three_tenths:
  "double (5854679515581645 / 4503599627370496) = 5854679515581645 / 4503599627370496"
proof -
  have "double (5854679515581645 / 4503599627370496)
          = of_int 5854679515581645 * 2 powi (0 - 52)"
    by (rule double_nearest) (simp_all add: power_int_minus)
  then show ?thesis by (simp add: power_int_minus)
qed

lemma double_two_and_three_tenths:
  "double (10358279142952141 / 4503599627370496) = 2589569785738035 / 1125899906842624"
proof -
  have "double (10358279142952141 / 4503599627370496)
          = of_int (if even (5179139571476070 :: int) then 5179139571476070 else 5179139571476070 + 1)
              * 2 powi (1 - 52)"
    by (rule double_tie) (simp_all add: power_int_minus)
  then show ?thesis by (simp add: power_int_minus)
qed

lemma double_numeral_small [simp]: "double 1 = 1" "double 2 = 2" "double 3 = 3"
  using double_of_nat [of 1] double_of_nat [of 2] double_of_nat [of 3] by simp_all

lemma calculateComplexity_threeCalls:
  "calculateComplexity threeCalls = 1351079888211149 / 4503599627370496"
  "calculateComplexity (threeCalls\<lparr>functions := [aFunction]\<rparr>) = 5854679515581645 / 4503599627370496"
  "calculateComplexity (threeCalls\<lparr>classes := [aClass]\<rparr>) = 2589569785738035 / 1125899906842624"
  by (simp_all add: calculateComplexity_def threeCalls_def emptyAnalysis_def num_def double_tenth
      double_three_tenths double_three_tenths_again double_one_and_three_tenths
      double_two_and_three_tenths)

lemma calculateComplexity_no_calls:
  assumes "calls a = []" and "length (functions a) + 2 * length (classes a) < 2 ^ 53"
  shows "calculateComplexity a = of_nat (length (functions a)) + 2 * of_nat (length (classes a))"
proof -
  let ?f = "length (functions a)" and ?c = "length (classes a)"
  from assms(2) have f: "?f < 2 ^ 53" and c: "?c < 2 ^ 53" and c2: "?c * 2 < 2 ^ 53"
    and s: "?f + ?c * 2 < 2 ^ 53" by simp_all
  have "double (num ?c * 2) = double (of_nat (?c * 2))" by (simp add: num_exact [OF c])
  also have "\<dots> = of_nat (?c * 2)" by (rule double_of_nat [OF c2])
  finally have d2: "double (num ?c * 2) = of_nat (?c * 2)" .
  have "double (num ?f + double (num ?c * 2)) = double (of_nat (?f + ?c * 2))"
    by (simp add: num_exact [OF f] d2)
  also have "\<dots> = of_nat (?f + ?c * 2)" by (rule double_of_nat [OF s])
  finally have d1: "double (num ?f + double (num ?c * 2)) = of_nat (?f + ?c * 2)" .
  have "calculateComplexity a = double (of_nat (?f + ?c * 2))"
    unfolding calculateComplexity_def d1 using assms(1) by (simp add: num_def)
  also have "\<dots> = of_nat (?f + ?c * 2)" by (rule double_of_nat [OF s])
  finally show ?thesis by simp
qed

lemma calculateComplexity_empty [simp]: "calculateComplexity emptyAnalysis = 0"
  using calculateComplexity_no_calls [of emptyAnalysis] by (simp add: emptyAnalysis_def)

lemma calculateComplexity_mono:
  assumes "length (functions a) \<le> length (functions b)"
    and "length (classes a) \<le> length (classes b)"
    and "length (calls a) = length (calls b)"
  shows "calculateComplexity a \<le> calculateComplexity b"
proof -
  have t: "0 \<le> double (1 / 10)" by (rule double_nonneg) simp
  have k: "0 \<le> double (num (length (calls a)) * double (1 / 10))"
    by (rule double_nonneg) (simp add: num_nonneg t)
  have c0: "0 \<le> double (num (length (classes a)) * 2)"
    by (rule double_nonneg) (simp add: num_nonneg)
  have c: "double (num (length (classes a)) * 2) \<le> double (num (length (classes b)) * 2)"
    by (rule double_mono) (simp_all add: num_nonneg num_mono [OF assms(2)])
  have i0: "0 \<le> double (num (length (functions a)) + double (num (length (classes a)) * 2))"
    by (rule double_nonneg) (simp add: num_nonneg c0)
  have i: "double (num (length (functions a)) + double (num (length (classes a)) * 2))
        \<le> double (num (length (functions b)) + double (num (length (classes b)) * 2))"
    by (rule double_mono) (use c c0 num_mono [OF assms(1)] num_nonneg [of "length (functions a)"] in linarith)+
  show ?thesis
    unfolding calculateComplexity_def assms(3)
    by (rule double_mono) (use i i0 k assms(3) in simp_all)
qed

lemma calculateComplexity_near:
  assumes "length (functions a) + 2 * length (classes a) < 2 ^ 53"
    and "length (calls a) < 2 ^ 53"
  shows "\<bar>calculateComplexity a
           - (of_nat (length (functions a)) + 2 * of_nat (length (classes a))
              + of_nat (length (calls a)) / 10)\<bar>
         \<le> (of_nat (length (functions a)) + 2 * of_nat (length (classes a))
              + of_nat (length (calls a)) / 10) / 2 ^ 51"
proof -
  let ?f = "length (functions a)" and ?c = "length (classes a)" and ?k = "length (calls a)"
  define A :: rat where "A = of_nat (?f + ?c * 2)"
  define K :: rat where "K = of_nat ?k"
  define t :: rat where "t = double (1 / 10)"
  define p where "p = double (K * t)"
  from assms(1) have f: "?f < 2 ^ 53" and c: "?c < 2 ^ 53" and c2: "?c * 2 < 2 ^ 53"
    and s: "?f + ?c * 2 < 2 ^ 53" by simp_all
  have "double (num ?c * 2) = double (of_nat (?c * 2))" by (simp add: num_exact [OF c])
  also have "\<dots> = of_nat (?c * 2)" by (rule double_of_nat [OF c2])
  finally have d2: "double (num ?c * 2) = of_nat (?c * 2)" .
  have "double (num ?f + double (num ?c * 2)) = double (of_nat (?f + ?c * 2))"
    by (simp add: num_exact [OF f] d2)
  also have "\<dots> = of_nat (?f + ?c * 2)" by (rule double_of_nat [OF s])
  finally have d1: "double (num ?f + double (num ?c * 2)) = A" unfolding A_def .
  have score: "calculateComplexity a = double (A + p)"
    unfolding calculateComplexity_def d1 p_def K_def t_def by (simp add: num_exact [OF assms(2)])
  have A0: "0 \<le> A" and K0: "0 \<le> K" unfolding A_def K_def by simp_all
  have t: "\<bar>t - 1 / 10\<bar> \<le> 1 / 10 / 2 ^ 53"
    unfolding t_def using double_error [of "1 / 10"] by simp
  have t0: "0 \<le> t" unfolding t_def by (rule double_nonneg) simp
  have Kt0: "0 \<le> K * t" using K0 t0 by simp
  have "\<bar>K * t - K / 10\<bar> = K * \<bar>t - 1 / 10\<bar>"
    using abs_mult [of K "t - 1 / 10"] K0 by (simp add: algebra_simps)
  also have "\<dots> \<le> K * (1 / 10 / 2 ^ 53)" by (rule mult_left_mono [OF t K0])
  finally have kt: "\<bar>K * t - K / 10\<bar> \<le> K / 10 / 2 ^ 53" by simp
  have pe: "\<bar>p - K * t\<bar> \<le> K * t / 2 ^ 53"
    unfolding p_def using double_error [of "K * t"] Kt0 by simp
  have p0: "0 \<le> p" unfolding p_def by (rule double_nonneg [OF Kt0])
  have se: "\<bar>double (A + p) - (A + p)\<bar> \<le> (A + p) / 2 ^ 53"
    using double_error [of "A + p"] A0 p0 by simp
  have s1: "K / 10 / 2 ^ 53 \<le> K / 10 / 4" using K0 by simp
  have u: "K * t \<le> 5 / 4 * (K / 10)" using kt s1 by linarith
  have s2: "K * t / 2 ^ 53 \<le> K * t / 4" using Kt0 by simp
  have p: "p \<le> 25 / 16 * (K / 10)" using pe s2 u by linarith
  have "\<bar>double (A + p) - (A + K / 10)\<bar>
          \<le> \<bar>double (A + p) - (A + p)\<bar> + \<bar>p - K * t\<bar> + \<bar>K * t - K / 10\<bar>"
    by linarith
  also have "\<dots> \<le> (A + p) / 2 ^ 53 + K * t / 2 ^ 53 + K / 10 / 2 ^ 53"
    using se pe kt by linarith
  also have "\<dots> \<le> (A + 25 / 16 * (K / 10)) / 2 ^ 53 + 5 / 4 * (K / 10) / 2 ^ 53 + K / 10 / 2 ^ 53"
    using u p by (intro add_mono divide_right_mono) simp_all
  also have "\<dots> = (A + 61 / 16 * (K / 10)) / 2 ^ 53"
    by (simp add: add_divide_distrib)
  also have "\<dots> \<le> (4 * A + 4 * (K / 10)) / 2 ^ 53"
    by (rule divide_right_mono) (use A0 K0 in simp_all)
  also have "\<dots> = (A + K / 10) / 2 ^ 51" by (simp add: add_divide_distrib)
  finally have "\<bar>double (A + p) - (A + K / 10)\<bar> \<le> (A + K / 10) / 2 ^ 51" .
  then show ?thesis unfolding score A_def K_def by (simp add: algebra_simps)
qed

section \<open>Every match of the scanner's patterns consumes text\<close>

text \<open>
  A lower bound on the length of a match, read off the pattern. A pattern whose bound is
  positive never matches the empty string, so the \<open>exec\<close> loop over it comes to an end.
\<close>

fun minLen :: "atom list \<Rightarrow> nat" where
  "minLen [] = 0"
| "minLen (Lit l # as) = length l + minLen as"
| "minLen (One c # as) = 1 + minLen as"
| "minLen (Many c m # as) = m + minLen as"
| "minLen (Cap c m # as) = m + minLen as"

fun productive :: "regex \<Rightarrow> bool" where
  "productive (Regex as) = (0 < minLen as)"
| "productive (OptThen pre as) = (0 < minLen as)"

lemma backtrack_Some:
  "backtrack f m n = Some y \<Longrightarrow> \<exists>k. m \<le> k \<and> k \<le> n \<and> f k = Some y"
proof (induction n)
  case 0
  then show ?case by (auto split: if_splits)
next
  case (Suc n)
  show ?case
  proof (cases "f (Suc n)")
    case None
    with Suc.prems have "backtrack f m n = Some y" by (simp split: if_splits)
    from Suc.IH [OF this] show ?thesis by (meson le_Suc_eq)
  next
    case (Some z)
    with Suc.prems have "\<not> Suc n < m" and "z = y" by (auto split: if_splits)
    with Some show ?thesis by (intro exI [of _ "Suc n"]) simp
  qed
qed

lemma minLen_append: "minLen (as @ bs) = minLen as + minLen bs"
  by (induction as rule: minLen.induct) simp_all

lemma matchAtoms_length:
  "matchAtoms as s = Some (caps, r) \<Longrightarrow> length r + minLen as \<le> length s"
proof (induction as arbitrary: s caps r)
  case Nil
  then show ?case by simp
next
  case (Cons a as)
  show ?case
  proof (cases a)
    case (Lit l)
    with Cons.prems have st: "startsWith s l" and m: "matchAtoms as (drop (length l) s) = Some (caps, r)"
      by (auto split: if_splits)
    from st have "length (take (length l) s) = length l" by (simp add: startsWith_def)
    then have "length l \<le> length s" by simp
    with Cons.IH [OF m] Lit show ?thesis by simp
  next
    case (One c)
    with Cons.prems obtain x xs where "s = x # xs" and "matchAtoms as xs = Some (caps, r)"
      by (auto split: list.splits if_splits)
    with Cons.IH [of xs caps r] One show ?thesis by simp
  next
    case (Many c m)
    with Cons.prems obtain k where k: "m \<le> k" "k \<le> length (takeWhile c s)"
        and mk: "matchAtoms as (drop k s) = Some (caps, r)"
      using backtrack_Some [of "\<lambda>k. matchAtoms as (drop k s)" m "length (takeWhile c s)" "(caps, r)"]
      by auto
    have "length (takeWhile c s) \<le> length s" by (rule length_takeWhile_le)
    with Cons.IH [OF mk] k Many show ?thesis by simp
  next
    case (Cap c m)
    with Cons.prems obtain k where k: "m \<le> k" "k \<le> length (takeWhile c s)"
        and mk: "map_option (\<lambda>(caps, r). (take k s # caps, r)) (matchAtoms as (drop k s)) = Some (caps, r)"
      using backtrack_Some [of "\<lambda>k. map_option (\<lambda>(caps, r). (take k s # caps, r)) (matchAtoms as (drop k s))"
          m "length (takeWhile c s)" "(caps, r)"]
      by auto
    from mk obtain caps' where mk': "matchAtoms as (drop k s) = Some (caps', r)"
      by (auto split: prod.splits)
    have "length (takeWhile c s) \<le> length s" by (rule length_takeWhile_le)
    with Cons.IH [OF mk'] k Cap show ?thesis by simp
  qed
qed

lemma matchAt_shorter:
  assumes "productive r" and "matchAt r s = Some (g, rest)"
  shows "length rest < length s"
proof (cases r)
  case (Regex as)
  with assms obtain caps where "matchAtoms as s = Some (caps, rest)" and "0 < minLen as"
    by (auto split: prod.splits)
  with matchAtoms_length [of as s caps rest] show ?thesis by simp
next
  case (OptThen pre as)
  with assms have pos: "0 < minLen as" by simp
  show ?thesis
  proof (cases "matchAtoms (pre @ as) s")
    case None
    with OptThen assms obtain caps where "matchAtoms as s = Some (caps, rest)"
      by (auto split: prod.splits)
    with matchAtoms_length [of as s caps rest] pos show ?thesis by simp
  next
    case (Some p)
    with OptThen assms obtain caps where "matchAtoms (pre @ as) s = Some (caps, rest)"
      by (cases p) auto
    with matchAtoms_length [of "pre @ as" s caps rest] pos show ?thesis
      by (simp add: minLen_append)
  qed
qed

lemma search_progress:
  "productive r \<Longrightarrow> search r s i = Some m \<Longrightarrow> index m < lastIndex m"
proof (induction s arbitrary: i)
  case Nil
  then obtain g rest where "matchAt r [] = Some (g, rest)"
    by (auto split: option.splits)
  with matchAt_shorter [OF Nil.prems(1), of "[]" g rest] show ?case by simp
next
  case (Cons x xs)
  show ?case
  proof (cases "matchAt r (x # xs)")
    case None
    with Cons.prems have "search r xs (Suc i) = Some m" by simp
    from Cons.IH [OF Cons.prems(1) this] show ?thesis .
  next
    case (Some p)
    obtain g rest where p: "p = (g, rest)" by (cases p)
    with Some matchAt_shorter [OF Cons.prems(1), of "x # xs" g rest]
    have "length rest < length (x # xs)" by simp
    with Some p Cons.prems(2) show ?thesis by auto
  qed
qed

lemma execAll_total: "productive r \<Longrightarrow> \<exists>ms. execAll r c li = Some ms"
proof (induction r c li rule: execAll.induct)
  case (1 r c li)
  show ?case
  proof (cases "exec r c li")
    case None
    then show ?thesis by simp
  next
    case (Some m)
    then have "search r (drop li c) li = Some m"
      by (auto simp: exec_def split: if_splits)
    from search_progress [OF "1.prems" this] have ne: "lastIndex m \<noteq> index m" by simp
    from "1.IH" [OF Some ne "1.prems"] obtain ms where "execAll r c (lastIndex m) = Some ms" ..
    with Some ne show ?thesis by simp
  qed
qed

lemma execEach_total: "list_all productive ps \<Longrightarrow> \<exists>ms. execEach ps c = Some ms"
proof (induction ps)
  case Nil
  then show ?case by simp
next
  case (Cons p ps)
  then obtain ms where "execEach ps c = Some ms" by auto
  moreover from Cons.prems execAll_total [of p c 0] obtain ms' where "execAll p c 0 = Some ms'" by auto
  ultimately show ?case by simp
qed

lemma productive_patterns:
  "list_all productive functionPatterns" "productive classPattern"
  "list_all productive importPatterns" "productive funcPattern" "productive importPattern"
  by (simp_all add: functionPatterns_def classPattern_def importPatterns_def funcPattern_def importPattern_def)

lemma jsRules_total: "\<exists>b. jsRules c a = Some b"
  using execEach_total [OF productive_patterns(1), of c]
    execAll_total [OF productive_patterns(2), of c 0]
    execEach_total [OF productive_patterns(3), of c]
  by (auto simp: jsRules_def)

lemma pyRules_total: "\<exists>b. pyRules c a = Some b"
  using execAll_total [OF productive_patterns(4), of c 0]
    execAll_total [OF productive_patterns(2), of c 0]
    execAll_total [OF productive_patterns(5), of c 0]
  by (auto simp: pyRules_def)

lemma fallbackAnalysis_total: "\<exists>a. fallbackAnalysis c file = Some a"
proof -
  obtain a where a: "(if extension file \<in> set [''js'', ''jsx'', ''ts'', ''tsx'', ''mjs'']
            then jsRules c emptyAnalysis else Some emptyAnalysis) = Some a"
    using jsRules_total [of c emptyAnalysis] by (cases "extension file \<in> set [''js'', ''jsx'', ''ts'', ''tsx'', ''mjs'']") auto
  then show ?thesis
    using pyRules_total [of c a] by (auto simp: fallbackAnalysis_def simp del: set_simps)
qed

text \<open>
  The groups the scanner reads are defined in every match: group 1 of the function, class
  and import patterns, and group 2 of the Python import pattern, whose group 1 is optional.
\<close>

lemma captures_append: "captures (as @ bs) = captures as + captures bs"
  by (induction as rule: captures.induct) simp_all

lemma matchAtoms_captures:
  "matchAtoms as s = Some (caps, r) \<Longrightarrow> length caps = captures as"
proof (induction as arbitrary: s caps r)
  case Nil
  then show ?case by simp
next
  case (Cons a as)
  show ?case
  proof (cases a)
    case (Lit l)
    with Cons.prems have "matchAtoms as (drop (length l) s) = Some (caps, r)"
      by (auto split: if_splits)
    with Cons.IH Lit show ?thesis by simp
  next
    case (One c)
    with Cons.prems obtain xs where "matchAtoms as xs = Some (caps, r)"
      by (auto split: list.splits if_splits)
    with Cons.IH One show ?thesis by simp
  next
    case (Many c m)
    with Cons.prems obtain k where "matchAtoms as (drop k s) = Some (caps, r)"
      using backtrack_Some [of "\<lambda>k. matchAtoms as (drop k s)" m "length (takeWhile c s)" "(caps, r)"]
      by auto
    with Cons.IH Many show ?thesis by simp
  next
    case (Cap c m)
    with Cons.prems obtain k where
      "map_option (\<lambda>(caps, r). (take k s # caps, r)) (matchAtoms as (drop k s)) = Some (caps, r)"
      using backtrack_Some [of "\<lambda>k. map_option (\<lambda>(caps, r). (take k s # caps, r)) (matchAtoms as (drop k s))"
          m "length (takeWhile c s)" "(caps, r)"]
      by auto
    then obtain caps' where "matchAtoms as (drop k s) = Some (caps', r)" and "caps = take k s # caps'"
      by (auto split: prod.splits)
    with Cons.IH [of "drop k s" caps' r] Cap show ?thesis by simp
  qed
qed

lemma matchAt_groups:
  assumes "matchAt r s = Some (g, rest)"
  shows "case r of
           Regex as \<Rightarrow> length g = captures as \<and> None \<notin> set g
         | OptThen pre as \<Rightarrow>
             length g = captures pre + captures as \<and> None \<notin> set (drop (captures pre) g)"
proof (cases r)
  case (Regex as)
  with assms obtain caps where "matchAtoms as s = Some (caps, rest)" and "g = map Some caps"
    by (auto split: prod.splits)
  with matchAtoms_captures [of as s caps rest] Regex show ?thesis by auto
next
  case (OptThen pre as)
  show ?thesis
  proof (cases "matchAtoms (pre @ as) s")
    case None
    with OptThen assms obtain caps where "matchAtoms as s = Some (caps, rest)"
        and "g = replicate (captures pre) None @ map Some caps"
      by (auto split: prod.splits)
    with matchAtoms_captures [of as s caps rest] OptThen show ?thesis by auto
  next
    case (Some p)
    with OptThen assms obtain caps where "matchAtoms (pre @ as) s = Some (caps, rest)"
        and "g = map Some caps"
      by (cases p) auto
    with matchAtoms_captures [of "pre @ as" s caps rest] OptThen show ?thesis
      by (auto simp: captures_append dest: in_set_dropD)
  qed
qed

lemma search_groups:
  "search r s i = Some m \<Longrightarrow> \<exists>t g rest. matchAt r t = Some (g, rest) \<and> groups m = g"
proof (induction s arbitrary: i)
  case Nil
  then obtain g rest where "matchAt r [] = Some (g, rest)" and "groups m = g"
    by (auto split: option.splits)
  then show ?case by blast
next
  case (Cons x xs)
  show ?case
  proof (cases "matchAt r (x # xs)")
    case None
    with Cons.prems have "search r xs (Suc i) = Some m" by simp
    from Cons.IH [OF this] show ?thesis .
  next
    case (Some p)
    obtain g rest where "p = (g, rest)" by (cases p)
    with Some Cons.prems have "matchAt r (x # xs) = Some (g, rest)" and "groups m = g" by auto
    then show ?thesis by blast
  qed
qed

lemma exec_group_defined:
  assumes "exec r c li = Some m"
  shows "case r of
           Regex as \<Rightarrow> (\<forall>i. 0 < i \<and> i \<le> captures as \<longrightarrow> (\<exists>s. matchGroup m i = Some s))
         | OptThen pre as \<Rightarrow>
             (\<forall>i. captures pre < i \<and> i \<le> captures pre + captures as \<longrightarrow> (\<exists>s. matchGroup m i = Some s))"
proof -
  from assms have "search r (drop li c) li = Some m" by (auto simp: exec_def split: if_splits)
  from search_groups [OF this] obtain t g rest where mt: "matchAt r t = Some (g, rest)" and g: "groups m = g"
    by blast
  show ?thesis
  proof (cases r)
    case (Regex as)
    with matchAt_groups [OF mt] have l: "length g = captures as" and n: "None \<notin> set g" by auto
    have "\<exists>s. matchGroup m i = Some s" if "0 < i" "i \<le> captures as" for i
    proof -
      from that l have "g ! (i - 1) \<in> set g" by simp
      with n have "g ! (i - 1) \<noteq> None" by metis
      moreover from that l g have "matchGroup m i = g ! (i - 1)" by (simp add: matchGroup_def)
      ultimately show ?thesis by (cases "g ! (i - 1)") simp_all
    qed
    with Regex show ?thesis by simp
  next
    case (OptThen pre as)
    with matchAt_groups [OF mt] have l: "length g = captures pre + captures as"
      and n: "None \<notin> set (drop (captures pre) g)" by auto
    have "\<exists>s. matchGroup m i = Some s" if "captures pre < i" "i \<le> captures pre + captures as" for i
    proof -
      from that l have "drop (captures pre) g ! (i - 1 - captures pre) \<in> set (drop (captures pre) g)"
        by (intro nth_mem) simp
      moreover from that l have "drop (captures pre) g ! (i - 1 - captures pre) = g ! (i - 1)"
        by simp
      ultimately have "g ! (i - 1) \<noteq> None" using n by metis
      moreover from that l g have "matchGroup m i = g ! (i - 1)" by (simp add: matchGroup_def)
      ultimately show ?thesis by (cases "g ! (i - 1)") simp_all
    qed
    with OptThen show ?thesis by simp
  qed
qed

lemma scanner_groups_defined:
  assumes "exec p c li = Some m"
  shows "p \<in> set functionPatterns \<union> {classPattern, funcPattern} \<union> set importPatterns
           \<Longrightarrow> \<exists>s. matchGroup m 1 = Some s"
    and "p = importPattern \<Longrightarrow> \<exists>s. matchGroup m 2 = Some s"
  using exec_group_defined [OF assms]
  by (auto simp: functionPatterns_def classPattern_def funcPattern_def importPatterns_def
      importPattern_def)

lemma fallbackAnalysis_empty_content: "fallbackAnalysis [] file = Some emptyAnalysis"
  by (simp add: fallbackAnalysis_def jsRules_def pyRules_def exec_def startsWith_def
      functionPatterns_def classPattern_def importPatterns_def funcPattern_def importPattern_def
      emptyAnalysis_def)

lemma analyse_total: "\<exists>r. analyse sc c file = Some r"
  using fallbackAnalysis_total [of c "file"] by (auto simp: analyse_def split: option.splits)

lemma parseFile_total: "\<exists>p. parseFile sc file = Some p"
proof (cases "readFile sc (path file)")
  case (Inl e)
  then show ?thesis by (simp add: parseFile_def)
next
  case (Inr c)
  obtain r where "analyse sc c file = Some r" using analyse_total by blast
  with Inr show ?thesis by (cases r) (simp_all add: parseFile_def)
qed



lemma parseFiles_total: "\<exists>ps. parseFiles sc files = Some ps"
proof (induction files)
  case Nil
  then show ?case by simp
next
  case (Cons f fs)
  then obtain qs where "parseFiles sc fs = Some qs" ..
  moreover obtain p where "parseFile sc f = Some p" using parseFile_total by blast
  ultimately show ?case by simp
qed

section \<open>Facts about the analysis, the graph and the metrics\<close>

lemma fooTwice_analysis:
  "fallbackAnalysis fooTwice appJs
     = Some \<lparr>functions =
               [\<lparr>fn_name = ''foo'', fn_line = 1, fn_parameters = [], fn_isAsync = False\<rparr>,
                \<lparr>fn_name = ''foo'', fn_line = 1, fn_parameters = [], fn_isAsync = False\<rparr>],
             classes = [], imports = [], exports = [], variables = [], calls = []\<rparr>"
  by code_simp

lemma mvc_parsed:
  "parseFiles (regexScanner mvcDisk) mvcFiles
     = Some [parsed (fileAt ''models/user.js'' ''user.js'' ''js'' 0) [] emptyAnalysis 1 0,
             parsed (fileAt ''views/home.js'' ''home.js'' ''js'' 0) [] emptyAnalysis 1 0,
             parsed (fileAt ''controllers/home.js'' ''home.js'' ''js'' 0) [] emptyAnalysis 1 0]"
  by (simp add: mvcDisk_def mvcFiles_def regexScanner_def parseFile_def analyse_def fileAt_def
      fallbackAnalysis_empty_content)

lemma jsRules_exports:
  "jsRules c a = Some b \<Longrightarrow> exports b = exports a \<and> variables b = variables a \<and> calls b = calls a"
  by (auto simp: jsRules_def split: option.splits)

lemma pyRules_exports:
  "pyRules c a = Some b \<Longrightarrow> exports b = exports a \<and> variables b = variables a \<and> calls b = calls a"
  by (auto simp: pyRules_def split: option.splits)

lemma fallbackAnalysis_exports:
  "fallbackAnalysis c file = Some a \<Longrightarrow> exports a = [] \<and> variables a = [] \<and> calls a = []"
  by (auto simp: fallbackAnalysis_def emptyAnalysis_def simp del: set_simps
      split: option.splits if_splits dest!: jsRules_exports pyRules_exports)

lemma lowerChar_not_E: "lowerChar c \<noteq> CHR ''E''"
proof
  assume a: "lowerChar c = CHR ''E''"
  define n where "n = (of_char c :: nat)"
  show False
  proof (cases "(65 \<le> n \<and> n \<le> 90) \<or> (192 \<le> n \<and> n \<le> 222 \<and> n \<noteq> 215)")
    case True
    then have "lowerChar c = char_of (n + 32)"
      unfolding lowerChar_def Let_def n_def [symmetric] by (rule if_P)
    with a have "char_of (n + 32) = CHR ''E''" by simp
    then have "(of_char (char_of (n + 32) :: char) :: nat) = of_char (CHR ''E'')" by simp
    then have "(n + 32) mod 256 = 69" by simp
    with True show False by auto
  next
    case False
    then have "lowerChar c = c"
      unfolding lowerChar_def Let_def n_def [symmetric] by (rule if_not_P)
    with a have "n = 69" by (simp add: n_def)
    with False show False by simp
  qed
qed

lemma toLowerCase_not_addEventListener: "toLowerCase s \<noteq> ''addEventListener''"
proof
  assume "toLowerCase s = ''addEventListener''"
  then have "CHR ''E'' \<in> set (map lowerChar s)" by (simp add: toLowerCase_def)
  then obtain x where "CHR ''E'' = lowerChar x" by auto
  then show False using lowerChar_not_E [of x] by simp
qed

lemma dom_names:
  "map_option (map (\<lambda>p. map fn_name (functions (analysis p)))) (parseFiles (regexScanner domDisk) domFiles)
     = Some [[''addEventListener'']]"
  by code_simp

lemma lonely_edges:
  "edges (buildDependencyGraph ''/home/user'' (the (parseFiles (regexScanner lonelyDisk) lonelyFiles)))
     = [\<lparr>source = ''a.js'', target = ''/repo/missing'', edge_type = ''import'', weight = 1\<rparr>]"
  by code_simp

lemma lonely_nodes:
  "map node_id (nodes (buildDependencyGraph ''/home/user''
      (the (parseFiles (regexScanner lonelyDisk) lonelyFiles)))) = [''a.js'']"
  by code_simp

lemma path_resolve_not_empty: "path_resolve cwd args \<noteq> []"
  by (simp add: path_resolve_def Let_def split: prod.splits)

lemma edgesOf_set:
  "set (edgesOf cwd f) =
     (\<lambda>imp. \<lparr>source = relativePath f,
              target = path_resolve cwd [path_dirname (path f), imp_module imp],
              edge_type = ''import'', weight = 1\<rparr>)
      ` {imp \<in> set (imports (analysis f)).
           startsWith (imp_module imp) ''./'' \<or> startsWith (imp_module imp) ''../''}"
  by (auto simp: edgesOf_def resolveImportPath_def path_resolve_not_empty split: option.splits if_splits)

lemma import_edges:
  "edges (buildDependencyGraph ''/home/user'' (the (parseFiles (regexScanner importDisk) importFiles)))
     = [\<lparr>source = ''a.js'', target = ''/repo/b'', edge_type = ''import'', weight = 1\<rparr>]"
  by code_simp

lemma import_nodes:
  "map node_id (nodes (buildDependencyGraph ''/home/user''
      (the (parseFiles (regexScanner importDisk) importFiles)))) = [''a.js'', ''b.js'']"
  by code_simp

lemma import_modules:
  "map imp_module (imports (analysis (hd (the (parseFiles (regexScanner importDisk) importFiles)))))
     = [''./b'', ''lodash'']"
  by code_simp

lemma edgesOf_length:
  "length (edgesOf cwd f) =
     length (filter (\<lambda>imp. startsWith (imp_module imp) ''./'' \<or> startsWith (imp_module imp) ''../'')
       (imports (analysis f)))"
proof -
  have "length (concat (map (\<lambda>imp.
        case resolveImportPath cwd (imp_module imp) f of
          None \<Rightarrow> []
        | Some targetPath \<Rightarrow>
            if targetPath = [] then []
            else [\<lparr>source = relativePath f, target = targetPath,
                   edge_type = ''import'', weight = 1\<rparr>]) is))
     = length (filter (\<lambda>imp. startsWith (imp_module imp) ''./'' \<or> startsWith (imp_module imp) ''../'') is)"
    for "is"
    by (induction "is") (simp_all add: resolveImportPath_def path_resolve_not_empty)
  then show ?thesis by (simp add: edgesOf_def)
qed



lemma module_exports:
  "map (\<lambda>p. exports (analysis p)) (the (parseFiles (regexScanner moduleDisk) moduleFiles))
     = [[], []]"
  by code_simp

lemma module_imports:
  "map (\<lambda>p. map imp_module (imports (analysis p)))
     (the (parseFiles (regexScanner moduleDisk) moduleFiles)) = [[], [''./lib'']]"
  by code_simp
















section \<open>Claims\<close>



text \<open>
  C2 (at the failing input). The claim: the functions sequence has at most one record per
  name, a later match of a recorded name being discarded, and
  \<open>function foo(){} function foo(){}\<close> yields one record named \<open>foo\<close>. The analysis of
  that text in \<open>app.js\<close> has two records named \<open>foo\<close>: \<open>fallbackAnalysis\<close> pushes a record
  for every match and looks no name up.
\<close>

theorem function_foo_recorded_twice:
  "map fn_name (functions (the (fallbackAnalysis fooTwice appJs))) = [''foo'', ''foo'']
   \<and> length (functions (the (fallbackAnalysis fooTwice appJs))) = 2
   \<and> \<not> distinct (map fn_name (functions (the (fallbackAnalysis fooTwice appJs))))"
  by (simp add: fooTwice_analysis)

text \<open>
  C3 (as stated). The claim: the target of every edge is the id of a node, an edge being
  emitted only when the resolved specifier is the path of another scanned file. A single
  file \<open>a.js\<close> that requires \<open>./missing\<close> gets an edge to \<open>/repo/missing\<close>, which is no
  node of the graph.
\<close>

theorem edge_target_counterexample:
  "map target (edges (buildDependencyGraph ''/home/user''
      (the (parseFiles (regexScanner lonelyDisk) lonelyFiles)))) = [''/repo/missing'']
   \<and> map node_id (nodes (buildDependencyGraph ''/home/user''
      (the (parseFiles (regexScanner lonelyDisk) lonelyFiles)))) = [''a.js'']
   \<and> \<not> set (map target (edges (buildDependencyGraph ''/home/user''
            (the (parseFiles (regexScanner lonelyDisk) lonelyFiles)))))
        \<subseteq> set (map node_id (nodes (buildDependencyGraph ''/home/user''
            (the (parseFiles (regexScanner lonelyDisk) lonelyFiles)))))"
  by (simp add: lonely_edges lonely_nodes)

text \<open>
  C3 (amended). The source of every edge is the id of a node. An edge is emitted for every
  recorded import whose specifier begins with \<open>./\<close> or \<open>../\<close>, and for no other; its
  target is the specifier resolved against the directory of the importing file's path,
  whether or not that is a scanned file.
\<close>

theorem edges_follow_relative_imports:
  "(\<forall>e \<in> set (edges (buildDependencyGraph cwd files)).
       source e \<in> set (map node_id (nodes (buildDependencyGraph cwd files)))
     \<and> (\<exists>f \<in> set files. \<exists>imp \<in> set (imports (analysis f)).
          source e = relativePath f
        \<and> (startsWith (imp_module imp) ''./'' \<or> startsWith (imp_module imp) ''../'')
        \<and> target e = path_resolve cwd [path_dirname (path f), imp_module imp]))
   \<and> (\<forall>f \<in> set files. \<forall>imp \<in> set (imports (analysis f)).
        startsWith (imp_module imp) ''./'' \<or> startsWith (imp_module imp) ''../'' \<longrightarrow>
        \<lparr>source = relativePath f,
         target = path_resolve cwd [path_dirname (path f), imp_module imp],
         edge_type = ''import'', weight = 1\<rparr> \<in> set (edges (buildDependencyGraph cwd files)))"
proof (intro conjI ballI impI)
  fix e assume "e \<in> set (edges (buildDependencyGraph cwd files))"
  then obtain f where f: "f \<in> set files" and e: "e \<in> set (edgesOf cwd f)"
    by (auto simp: buildDependencyGraph_def)
  from e obtain imp where imp: "imp \<in> set (imports (analysis f))"
      "startsWith (imp_module imp) ''./'' \<or> startsWith (imp_module imp) ''../''"
      and eq: "e = \<lparr>source = relativePath f,
              target = path_resolve cwd [path_dirname (path f), imp_module imp],
              edge_type = ''import'', weight = 1\<rparr>"
    unfolding edgesOf_set by blast
  from f eq show "source e \<in> set (map node_id (nodes (buildDependencyGraph cwd files)))"
    by (auto simp: buildDependencyGraph_def nodeOf_def)
  from f imp eq show "\<exists>f \<in> set files. \<exists>imp \<in> set (imports (analysis f)).
          source e = relativePath f
        \<and> (startsWith (imp_module imp) ''./'' \<or> startsWith (imp_module imp) ''../'')
        \<and> target e = path_resolve cwd [path_dirname (path f), imp_module imp]"
    by (intro bexI [of _ f] bexI [of _ imp]) simp_all
next
  fix f imp
  assume "f \<in> set files" "imp \<in> set (imports (analysis f))"
    "startsWith (imp_module imp) ''./'' \<or> startsWith (imp_module imp) ''../''"
  then have "\<lparr>source = relativePath f,
         target = path_resolve cwd [path_dirname (path f), imp_module imp],
         edge_type = ''import'', weight = 1\<rparr> \<in> set (edgesOf cwd f)"
    unfolding edgesOf_set by blast
  with \<open>f \<in> set files\<close>
  show "\<lparr>source = relativePath f,
         target = path_resolve cwd [path_dirname (path f), imp_module imp],
         edge_type = ''import'', weight = 1\<rparr> \<in> set (edges (buildDependencyGraph cwd files))"
    by (auto simp: buildDependencyGraph_def)
qed

theorem edges_follow_relative_imports_witness:
  "withExports \<in> set [withExports]
   \<and> \<lparr>imp_module = ''./b'', imp_line = 1, imp_type = ''import''\<rparr>
        \<in> set (imports (analysis withExports))
   \<and> startsWith ''./b'' ''./''
   \<and> \<lparr>source = ''app.js'', target = ''/repo/b'', edge_type = ''import'', weight = 1\<rparr>
        \<in> set (edges (buildDependencyGraph ''/home/user'' [withExports]))"
proof -
  let ?imp = "\<lparr>imp_module = ''./b'', imp_line = 1, imp_type = ''import''\<rparr>"
  have f: "withExports \<in> set [withExports]" by simp
  have i: "?imp \<in> set (imports (analysis withExports))"
    by (simp add: withExports_def parsed_def emptyAnalysis_def)
  have r: "startsWith (imp_module ?imp) ''./'' \<or> startsWith (imp_module ?imp) ''../''"
    by (simp add: startsWith_def)
  have p: "path_resolve ''/home/user'' [path_dirname (path withExports), imp_module ?imp] = ''/repo/b''"
    by code_simp
  have rp: "relativePath withExports = ''app.js''"
    by (simp add: withExports_def parsed_def appJs_def fileAt_def)
  from edges_follow_relative_imports [of "''/home/user''" "[withExports]"] f i r
  have "\<lparr>source = relativePath withExports,
         target = path_resolve ''/home/user'' [path_dirname (path withExports), imp_module ?imp],
         edge_type = ''import'', weight = 1\<rparr>
          \<in> set (edges (buildDependencyGraph ''/home/user'' [withExports]))"
    by blast
  with p rp f i show ?thesis by (simp add: startsWith_def)
qed

text \<open>
  C4 (as stated). The claim: with \<open>a.js\<close> importing \<open>./b\<close> and \<open>b.js\<close> in the set, the
  graph has exactly one edge from \<open>a.js\<close> to \<open>b.js\<close>. The graph of these two files has
  the nodes \<open>a.js\<close> and \<open>b.js\<close> and no edge whose target is \<open>b.js\<close>.
\<close>

theorem edge_to_b_js_counterexample:
  "map node_id (nodes (buildDependencyGraph ''/home/user''
      (the (parseFiles (regexScanner importDisk) importFiles)))) = [''a.js'', ''b.js'']
   \<and> \<lparr>source = ''a.js'', target = ''b.js'', edge_type = ''import'', weight = 1\<rparr>
        \<notin> set (edges (buildDependencyGraph ''/home/user''
              (the (parseFiles (regexScanner importDisk) importFiles))))
   \<and> ''b.js'' \<notin> set (map target (edges (buildDependencyGraph ''/home/user''
              (the (parseFiles (regexScanner importDisk) importFiles)))))"
  by (simp add: import_edges import_nodes)

text \<open>
  C4 (amended). A file has as many edges as it has imports whose specifier begins with
  \<open>./\<close> or \<open>../\<close>; a specifier that begins with neither, such as \<open>lodash\<close>, resolves to
  nothing and gives no edge. For \<open>/repo/a.js\<close> importing \<open>./b\<close> and \<open>lodash\<close>, with
  \<open>/repo/b.js\<close> in the set, the graph has exactly one edge: its source is \<open>a.js\<close> and its
  target is the resolved path \<open>/repo/b\<close>.
\<close>

theorem relative_import_edge:
  "length (edgesOf cwd f)
     = length (filter (\<lambda>imp. startsWith (imp_module imp) ''./'' \<or> startsWith (imp_module imp) ''../'')
         (imports (analysis f)))
   \<and> (\<not> startsWith m ''./'' \<and> \<not> startsWith m ''../'' \<longrightarrow> resolveImportPath cwd m f = None)
   \<and> map imp_module (imports (analysis (hd (the (parseFiles (regexScanner importDisk) importFiles)))))
       = [''./b'', ''lodash'']
   \<and> edges (buildDependencyGraph ''/home/user'' (the (parseFiles (regexScanner importDisk) importFiles)))
       = [\<lparr>source = ''a.js'', target = ''/repo/b'', edge_type = ''import'', weight = 1\<rparr>]"
  using edgesOf_length [of cwd f] import_modules import_edges
  by (simp add: resolveImportPath_def)

theorem relative_import_edge_witness:
  "\<not> startsWith ''lodash'' ''./'' \<and> \<not> startsWith ''lodash'' ''../''
   \<and> resolveImportPath ''/home/user'' ''lodash'' withExports = None
   \<and> length (edgesOf ''/home/user'' withExports) = 1"
proof -
  have b: "\<not> startsWith ''lodash'' ''./'' \<and> \<not> startsWith ''lodash'' ''../''"
    by (simp add: startsWith_def)
  have n: "length (filter (\<lambda>imp. startsWith (imp_module imp) ''./'' \<or> startsWith (imp_module imp) ''../'')
         (imports (analysis withExports))) = 1"
    by (simp add: withExports_def parsed_def emptyAnalysis_def startsWith_def)
  from relative_import_edge [of "''/home/user''" withExports "''lodash''"] b n
  show ?thesis by simp
qed

text \<open>
  C5 (at the failing input). The files \<open>models/user.js\<close>, \<open>views/home.js\<close> and
  \<open>controllers/home.js\<close> of a repository, with empty content: their names are \<open>user.js\<close>,
  \<open>home.js\<close> and \<open>home.js\<close>, and no relative path holds \<open>/models/\<close>, \<open>/views/\<close> or
  \<open>/controllers/\<close> with its leading slash. The detector reports nothing.
\<close>

theorem mvc_top_level_directories:
  "detectMVCPattern (the (parseFiles (regexScanner mvcDisk) mvcFiles))
     = \<lparr>detected = False, confidence = 0,
        evidence = \<lparr>hasModels = False, hasViews = False, hasControllers = False\<rparr>\<rparr>"
  by (simp add: mvc_parsed detectMVCPattern_def parsed_def fileAt_def toLowerCase_def
      lowerChar_def startsWith_def)

text \<open>
  C6 (as stated). The claim: the score is the number of functions, plus twice the number
  of classes, plus a tenth of the number of calls, and one more class adds exactly twice
  what one more function adds. The code computes in doubles. For an analysis with three
  calls and nothing else the score is \<open>0.30000000000000004\<close>, not three tenths; one more
  function adds exactly 1, and one more class adds \<open>1.9999999999999998\<close>, which is
  \<open>2 - 2^-52\<close>.
\<close>

theorem complexity_three_calls_counterexample:
  "calculateComplexity threeCalls = 1351079888211149 / 4503599627370496
   \<and> calculateComplexity threeCalls
       \<noteq> of_nat (length (functions threeCalls)) + 2 * of_nat (length (classes threeCalls))
         + of_nat (length (calls threeCalls)) / 10
   \<and> calculateComplexity (threeCalls\<lparr>functions := aFunction # functions threeCalls\<rparr>)
       - calculateComplexity threeCalls = 1
   \<and> calculateComplexity (threeCalls\<lparr>classes := aClass # classes threeCalls\<rparr>)
       - calculateComplexity threeCalls = 9007199254740991 / 4503599627370496
   \<and> calculateComplexity (threeCalls\<lparr>classes := aClass # classes threeCalls\<rparr>)
       - calculateComplexity threeCalls
       \<noteq> 2 * (calculateComplexity (threeCalls\<lparr>functions := aFunction # functions threeCalls\<rparr>)
              - calculateComplexity threeCalls)"
proof -
  have e: "functions threeCalls = []" "classes threeCalls = []" "length (calls threeCalls) = 3"
    by (simp_all add: threeCalls_def emptyAnalysis_def)
  show ?thesis unfolding e by (simp add: calculateComplexity_threeCalls)
qed

text \<open>
  C6 (amended). The score is the sum computed in doubles. With every array shorter than
  \<open>2^32\<close>, as a JavaScript array is, it differs from the number of functions plus twice the
  number of classes plus a tenth of the number of calls by at most that number divided by
  \<open>2^51\<close>. For an analysis without calls, as every regex analysis is, the score is exactly
  the number of functions plus twice the number of classes, one more function adds
  exactly 1 and one more class exactly 2. With or without calls, one more function and
  one more class never lower the score.
\<close>

theorem complexity_in_doubles:
  "(length (functions a) < 2 ^ 32 \<and> length (classes a) < 2 ^ 32 \<and> length (calls a) < 2 ^ 32 \<longrightarrow>
      \<bar>calculateComplexity a
         - (of_nat (length (functions a)) + 2 * of_nat (length (classes a))
            + of_nat (length (calls a)) / 10)\<bar>
       \<le> (of_nat (length (functions a)) + 2 * of_nat (length (classes a))
            + of_nat (length (calls a)) / 10) / 2 ^ 51)
   \<and> (length (functions a) < 2 ^ 32 \<and> length (classes a) < 2 ^ 32 \<and> calls a = [] \<longrightarrow>
        calculateComplexity a = of_nat (length (functions a)) + 2 * of_nat (length (classes a))
      \<and> calculateComplexity (a\<lparr>functions := fn # functions a\<rparr>) - calculateComplexity a = 1
      \<and> calculateComplexity (a\<lparr>classes := cl # classes a\<rparr>) - calculateComplexity a
          = 2 * (calculateComplexity (a\<lparr>functions := fn # functions a\<rparr>) - calculateComplexity a))
   \<and> calculateComplexity a \<le> calculateComplexity (a\<lparr>functions := fn # functions a\<rparr>)
   \<and> calculateComplexity a \<le> calculateComplexity (a\<lparr>classes := cl # classes a\<rparr>)"
proof (intro conjI impI)
  assume b: "length (functions a) < 2 ^ 32 \<and> length (classes a) < 2 ^ 32 \<and> length (calls a) < 2 ^ 32"
  then have "length (functions a) + 2 * length (classes a) < 2 ^ 53" "length (calls a) < 2 ^ 53"
    by simp_all
  then show "\<bar>calculateComplexity a
         - (of_nat (length (functions a)) + 2 * of_nat (length (classes a))
            + of_nat (length (calls a)) / 10)\<bar>
       \<le> (of_nat (length (functions a)) + 2 * of_nat (length (classes a))
            + of_nat (length (calls a)) / 10) / 2 ^ 51"
    by (rule calculateComplexity_near)
next
  assume b: "length (functions a) < 2 ^ 32 \<and> length (classes a) < 2 ^ 32 \<and> calls a = []"
  then have s: "length (functions a) + 2 * length (classes a) < 2 ^ 53"
    and sf: "length (functions (a\<lparr>functions := fn # functions a\<rparr>))
               + 2 * length (classes (a\<lparr>functions := fn # functions a\<rparr>)) < 2 ^ 53"
    and sc: "length (functions (a\<lparr>classes := cl # classes a\<rparr>))
               + 2 * length (classes (a\<lparr>classes := cl # classes a\<rparr>)) < 2 ^ 53"
    and k: "calls a = []" "calls (a\<lparr>functions := fn # functions a\<rparr>) = []"
      "calls (a\<lparr>classes := cl # classes a\<rparr>) = []"
    by simp_all
  show v: "calculateComplexity a = of_nat (length (functions a)) + 2 * of_nat (length (classes a))"
    by (rule calculateComplexity_no_calls [OF k(1) s])
  show f: "calculateComplexity (a\<lparr>functions := fn # functions a\<rparr>) - calculateComplexity a = 1"
    unfolding v calculateComplexity_no_calls [OF k(2) sf] by simp
  show "calculateComplexity (a\<lparr>classes := cl # classes a\<rparr>) - calculateComplexity a
          = 2 * (calculateComplexity (a\<lparr>functions := fn # functions a\<rparr>) - calculateComplexity a)"
    unfolding f unfolding v calculateComplexity_no_calls [OF k(3) sc] by simp
next
  show "calculateComplexity a \<le> calculateComplexity (a\<lparr>functions := fn # functions a\<rparr>)"
    by (rule calculateComplexity_mono) simp_all
  show "calculateComplexity a \<le> calculateComplexity (a\<lparr>classes := cl # classes a\<rparr>)"
    by (rule calculateComplexity_mono) simp_all
qed

theorem complexity_in_doubles_witness:
  "length (functions threeCalls) < 2 ^ 32 \<and> length (classes threeCalls) < 2 ^ 32
   \<and> length (calls threeCalls) < 2 ^ 32
   \<and> \<bar>calculateComplexity threeCalls - 3 / 10\<bar> \<le> 3 / 10 / 2 ^ 51
   \<and> length (functions emptyAnalysis) < 2 ^ 32 \<and> length (classes emptyAnalysis) < 2 ^ 32
   \<and> calls emptyAnalysis = []
   \<and> calculateComplexity emptyAnalysis = 0
   \<and> calculateComplexity (emptyAnalysis\<lparr>functions := aFunction # functions emptyAnalysis\<rparr>) = 1
   \<and> calculateComplexity (emptyAnalysis\<lparr>classes := aClass # classes emptyAnalysis\<rparr>) = 2"
proof -
  have t: "length (functions threeCalls) < 2 ^ 32 \<and> length (classes threeCalls) < 2 ^ 32
      \<and> length (calls threeCalls) < 2 ^ 32"
    and tv: "length (functions threeCalls) = 0" "length (classes threeCalls) = 0"
      "length (calls threeCalls) = 3"
    by (simp_all add: threeCalls_def emptyAnalysis_def)
  have e: "length (functions emptyAnalysis) < 2 ^ 32 \<and> length (classes emptyAnalysis) < 2 ^ 32
      \<and> calls emptyAnalysis = []"
    and ev: "length (functions emptyAnalysis) = 0" "length (classes emptyAnalysis) = 0"
    by (simp_all add: emptyAnalysis_def)
  from complexity_in_doubles [of threeCalls aFunction aClass] t
  have near: "\<bar>calculateComplexity threeCalls - 3 / 10\<bar> \<le> 3 / 10 / 2 ^ 51"
    unfolding tv by simp
  from complexity_in_doubles [of emptyAnalysis aFunction aClass] e
  have v: "calculateComplexity emptyAnalysis
             = of_nat (length (functions emptyAnalysis)) + 2 * of_nat (length (classes emptyAnalysis))"
    and f: "calculateComplexity (emptyAnalysis\<lparr>functions := aFunction # functions emptyAnalysis\<rparr>)
              - calculateComplexity emptyAnalysis = 1"
    and c: "calculateComplexity (emptyAnalysis\<lparr>classes := aClass # classes emptyAnalysis\<rparr>)
              - calculateComplexity emptyAnalysis
            = 2 * (calculateComplexity (emptyAnalysis\<lparr>functions := aFunction # functions emptyAnalysis\<rparr>)
                   - calculateComplexity emptyAnalysis)"
    by blast+
  from v have z: "calculateComplexity emptyAnalysis = 0" unfolding ev by simp
  from f z have f1: "calculateComplexity (emptyAnalysis\<lparr>functions := aFunction # functions emptyAnalysis\<rparr>) = 1"
    by simp
  from c f z have c2: "calculateComplexity (emptyAnalysis\<lparr>classes := aClass # classes emptyAnalysis\<rparr>) = 2"
    by simp
  from t near e z f1 c2 show ?thesis by blast
qed




text \<open>
  C8 (at the failing input). The claim: a file with \<open>module.exports\<close>, \<open>exports.*\<close> or
  \<open>export default name\<close> has a non-empty exports sequence, and a set with such a file and
  a file with imports has the Modules pattern detected. No rule of the regex analysis
  pushes to \<open>exports\<close>: the sequence is empty for every text. The scan of \<open>lib.js\<close>, which
  holds all three declarations, and \<open>main.js\<close>, which requires \<open>./lib\<close>, has no export and
  one import, and the detector reports \<open>detected = false\<close>.
\<close>

theorem exports_never_recorded:
  "(\<exists>a. fallbackAnalysis c file = Some a \<and> exports a = [])
   \<and> exports (the (fallbackAnalysis exportingText appJs)) = []
   \<and> map (\<lambda>p. exports (analysis p)) (the (parseFiles (regexScanner moduleDisk) moduleFiles))
       = [[], []]
   \<and> map (\<lambda>p. map imp_module (imports (analysis p)))
         (the (parseFiles (regexScanner moduleDisk) moduleFiles)) = [[], [''./lib'']]
   \<and> detectModulePattern (the (parseFiles (regexScanner moduleDisk) moduleFiles))
       = \<lparr>detected = False, confidence = 8 / 10, evidence = True\<rparr>"
proof -
  obtain a where a: "fallbackAnalysis c file = Some a" using fallbackAnalysis_total by blast
  with fallbackAnalysis_exports [OF a] have all: "\<exists>a. fallbackAnalysis c file = Some a \<and> exports a = []"
    by simp
  obtain b where b: "fallbackAnalysis exportingText appJs = Some b"
    using fallbackAnalysis_total by blast
  with fallbackAnalysis_exports [OF b] have one: "exports (the (fallbackAnalysis exportingText appJs)) = []"
    by simp
  obtain ps where ps: "parseFiles (regexScanner moduleDisk) moduleFiles = Some ps"
    using parseFiles_total by blast
  with module_exports have ex: "map (\<lambda>p. exports (analysis p)) ps = [[], []]" by simp
  then obtain p q where pq: "ps = [p, q]" and e: "exports (analysis p) = []" "exports (analysis q) = []"
    by auto
  then have "detectModulePattern ps = \<lparr>detected = False, confidence = 8 / 10, evidence = True\<rparr>"
    by (simp add: detectModulePattern_def)
  with all one ps module_exports module_imports show ?thesis by simp
qed

text \<open>
  C9 (at the failing input). The detector lowers a function name and looks it up in a list
  that holds \<open>addEventListener\<close> with its capitals: no lowered name is equal to it. A file
  whose analysis has a function named \<open>addEventListener\<close> gives the count 0 and
  \<open>detected = false\<close>.
\<close>

theorem observer_addEventListener_not_counted:
  "toLowerCase s \<noteq> ''addEventListener''
   \<and> map fn_name (functions (analysis (hd (the (parseFiles (regexScanner domDisk) domFiles)))))
       = [''addEventListener'']
   \<and> detectObserverPattern (the (parseFiles (regexScanner domDisk) domFiles))
       = \<lparr>detected = False, confidence = 0, evidence = 0\<rparr>"
proof -
  obtain ps where ps: "parseFiles (regexScanner domDisk) domFiles = Some ps"
    using parseFiles_total by blast
  with dom_names have names: "map (\<lambda>p. map fn_name (functions (analysis p))) ps = [[''addEventListener'']]"
    by simp
  then obtain p where p: "ps = [p]" and fn: "map fn_name (functions (analysis p)) = [''addEventListener'']"
    by auto
  from fn obtain f where f: "functions (analysis p) = [f]" and nm: "fn_name f = ''addEventListener''" by auto
  have "toLowerCase (fn_name f) = ''addeventlistener''" unfolding nm by code_simp
  then have "toLowerCase (fn_name f) \<notin> set observerNames" by (simp add: observerNames_def)
  with p f have "detectObserverPattern ps = \<lparr>detected = False, confidence = 0, evidence = 0\<rparr>"
    by (simp add: detectObserverPattern_def)
  with ps p fn toLowerCase_not_addEventListener show ?thesis by simp
qed

text \<open>
  C10. The confidence of the Singleton verdict is 0.9 and the confidence of the Modules
  verdict is 0.8 for every collection of files, also where the verdict is not detected, as
  it is for no files at all.
\<close>

theorem fixed_confidences:
  "confidence (detectSingletonPattern files) = 9 / 10
   \<and> confidence (detectModulePattern files) = 8 / 10
   \<and> \<not> detected (detectSingletonPattern [])
   \<and> \<not> detected (detectModulePattern [])"
  by (simp add: detectSingletonPattern_def detectModulePattern_def)

end

